theory Spec2Isabelle
  imports Main "HOL-Library.Multiset"
begin

section \<open>Definition Splitter (src/lib/graphql-parser.ts)\<close>

text \<open>
  JavaScript strings are sequences of UTF-16 code units; the model uses \<open>string\<close>, whose
  characters are the code units below 256. Everything the splitter looks at (keywords,
  identifier characters, braces) is ASCII; of the white space class \<open>\s\<close> the code units
  below 256 are TAB, LF, VT, FF, CR, SPACE and NO-BREAK SPACE.
\<close>

datatype def_type = Query | Fragment

text \<open>
  \<open>MergedDefinition = {filename, content}\<close> (graphql-merge.ts) and
  \<open>Definition = {type, filename, content}\<close> (graphql-parser.ts).
\<close>

record MergedDefinition =
  filename :: string
  content :: string

record Definition = MergedDefinition +
  type :: def_type

text \<open>The two \<open>throw new Error(...)\<close> of the splitter, with the value the message carries.\<close>

datatype parse_error =
    CouldNotParseName nat      \<comment> \<open>'Could not parse definition name at position ' + index\<close>
  | NoMatchingBrace string     \<comment> \<open>'No matching closing brace found for definition ' + name\<close>

definition is_space :: "char \<Rightarrow> bool" where
  "is_space c = (of_char c \<in> {9, 10, 11, 12, 13, 32, 160 :: nat})"

definition is_ident :: "char \<Rightarrow> bool" where
  "is_ident c =
     (let n = (of_char c :: nat)
      in (65 \<le> n \<and> n \<le> 90) \<or> (97 \<le> n \<and> n \<le> 122) \<or> (48 \<le> n \<and> n \<le> 57) \<or> n = 95)"

text \<open>\<open>input.startsWith(kw, index)\<close> and \<open>input.substring(from, to)\<close>.\<close>

definition startsWith :: "string \<Rightarrow> string \<Rightarrow> nat \<Rightarrow> bool" where
  "startsWith input kw index = (take (length kw) (drop index input) = kw)"

definition substring :: "string \<Rightarrow> nat \<Rightarrow> nat \<Rightarrow> string" where
  "substring input from to = take (to - from) (drop from input)"

definition keyword :: "def_type \<Rightarrow> string" where
  "keyword t = (case t of Query \<Rightarrow> ''query'' | Fragment \<Rightarrow> ''fragment'')"

text \<open>\<open>while (index < length && /\s/.test(input[index])) index++\<close>\<close>

function skipWhitespace :: "string \<Rightarrow> nat \<Rightarrow> nat" where
  "skipWhitespace input index =
     (if index < length input \<and> is_space (input ! index)
      then skipWhitespace input (index + 1) else index)"
  by pat_completeness auto
termination
  by (relation "measure (\<lambda>(input, index). length input - index)") auto

text \<open>\<open>while (index < length && input[index] !== '{') index++\<close>\<close>

function skipToBrace :: "string \<Rightarrow> nat \<Rightarrow> nat" where
  "skipToBrace input index =
     (if index < length input \<and> input ! index \<noteq> CHR ''{''
      then skipToBrace input (index + 1) else index)"
  by pat_completeness auto
termination
  by (relation "measure (\<lambda>(input, index). length input - index)") auto

text \<open>
  The brace counter loop. The result is \<open>(endBlockIndex, index)\<close> as the loop leaves them:
  \<open>None\<close> stands for \<open>endBlockIndex === -1\<close>.
\<close>

function findBlockEnd :: "string \<Rightarrow> nat \<Rightarrow> int \<Rightarrow> nat option \<times> nat" where
  "findBlockEnd input index braceCount =
     (if index < length input then
        (if input ! index = CHR ''{'' then findBlockEnd input (index + 1) (braceCount + 1)
         else if input ! index = CHR ''}'' then
           (if braceCount - 1 = 0 then (Some index, index + 1)
            else findBlockEnd input (index + 1) (braceCount - 1))
         else findBlockEnd input (index + 1) braceCount)
      else (None, index))"
  by pat_completeness auto
termination
  by (relation "measure (\<lambda>(input, index, braceCount). length input - index)") auto

text \<open>The filename of a definition, from its type and name.\<close>

definition endsWith :: "string \<Rightarrow> string \<Rightarrow> bool" where
  "endsWith s suffix = (length suffix \<le> length s \<and> drop (length s - length suffix) s = suffix)"

definition computeFilename :: "def_type \<Rightarrow> string \<Rightarrow> string" where
  "computeFilename t name =
     (case t of
        Query \<Rightarrow>
          (if endsWith name ''Query'' then take (length name - length ''Query'') name else name)
            @ ''.js''
      | Fragment \<Rightarrow> takeWhile (\<lambda>c. c \<noteq> CHR ''_'') name @ ''.js'')"

lemma skipWhitespace_ge: "index \<le> skipWhitespace input index"
proof (induction input index rule: skipWhitespace.induct)
  case (1 input index)
  show ?case
  proof (cases "index < length input \<and> is_space (input ! index)")
    case True
    with 1 have "index + 1 \<le> skipWhitespace input (index + 1)" by simp
    moreover from True have "skipWhitespace input index = skipWhitespace input (index + 1)"
      by simp
    ultimately show ?thesis by simp
  next
    case False
    then show ?thesis by simp
  qed
qed

lemma skipToBrace_ge: "index \<le> skipToBrace input index"
proof (induction input index rule: skipToBrace.induct)
  case (1 input index)
  show ?case
  proof (cases "index < length input \<and> input ! index \<noteq> CHR ''{''")
    case True
    with 1 have "index + 1 \<le> skipToBrace input (index + 1)" by simp
    moreover from True have "skipToBrace input index = skipToBrace input (index + 1)"
      by simp
    ultimately show ?thesis by simp
  next
    case False
    then show ?thesis by simp
  qed
qed

lemma findBlockEnd_gt:
  "findBlockEnd input index braceCount = (Some e, index') \<Longrightarrow> index \<le> e \<and> index' = e + 1"
proof (induction input index braceCount rule: findBlockEnd.induct)
  case (1 input index braceCount)
  from "1.prems" have lt: "index < length input"
    by (auto split: if_splits)
  show ?case
  proof (cases "input ! index = CHR ''{''")
    case True
    with lt "1.prems" have "findBlockEnd input (index + 1) (braceCount + 1) = (Some e, index')"
      by simp
    with "1.IH"(1) lt True show ?thesis by fastforce
  next
    case nb: False
    show ?thesis
    proof (cases "input ! index = CHR ''}''")
      case True
      show ?thesis
      proof (cases "braceCount - 1 = 0")
        case z: True
        with lt nb True "1.prems" show ?thesis by simp
      next
        case nz: False
        with lt nb True "1.prems"
        have "findBlockEnd input (index + 1) (braceCount - 1) = (Some e, index')" by simp
        with "1.IH"(2) lt nb True nz show ?thesis by fastforce
      qed
    next
      case False
      with lt nb "1.prems" have "findBlockEnd input (index + 1) braceCount = (Some e, index')"
        by simp
      with "1.IH"(3) lt nb False show ?thesis by fastforce
    qed
  qed
qed

declare skipWhitespace.simps [simp del] skipToBrace.simps [simp del] findBlockEnd.simps [simp del]

text \<open>
  The outer \<open>while (index < length)\<close> loop of \<open>parseGraphQLDefinitions\<close>, with the list
  \<open>definitions\<close> built so far as an argument. Each \<open>break\<close> returns that list.
\<close>

function parseLoop :: "string \<Rightarrow> nat \<Rightarrow> Definition list \<Rightarrow> parse_error + Definition list" where
  "parseLoop input index0 definitions =
     (if index0 < length input then
        (let index = skipWhitespace input index0 in
         if index \<ge> length input then Inr definitions
         else if startsWith input ''query'' index \<or> startsWith input ''fragment'' index then
           (let startDefinition = index;
                t = (if startsWith input ''query'' index then Query else Fragment);
                index1 = skipWhitespace input (index + length (keyword t));
                name = takeWhile is_ident (drop index1 input)
            in if name = [] then Inl (CouldNotParseName index1)
               else
                 (let index2 = skipToBrace input (index1 + length name) in
                  if index2 \<ge> length input then Inr definitions
                  else
                    (case findBlockEnd input index2 0 of
                       (None, _) \<Rightarrow> Inl (NoMatchingBrace name)
                     | (Some endBlockIndex, index3) \<Rightarrow>
                         parseLoop input index3
                           (definitions @
                             [\<lparr>filename = computeFilename t name,
                               content = substring input startDefinition (endBlockIndex + 1), type = t\<rparr>]))))
         else parseLoop input (index + 1) definitions)
      else Inr definitions)"
  by pat_completeness auto
termination
proof (relation "measure (\<lambda>(input, index, definitions). length input - index)", goal_cases)
  case 1
  show ?case by simp
next
  case (2 input index0 definitions index startDefinition t index1 name index2 x y endBlockIndex)
  have a: "index0 \<le> index" using 2 by (simp add: skipWhitespace_ge)
  have b: "index \<le> index1" using 2 skipWhitespace_ge [of "index + length (keyword t)" input]
    by simp
  have c: "index1 \<le> index2" using 2 skipToBrace_ge [of "index1 + length name" input] by simp
  have d: "index2 < y" using 2 findBlockEnd_gt [of input index2 0 endBlockIndex y] by simp
  from a b c d 2 show ?case by simp
next
  case (3 input index0 definitions index)
  then show ?case using skipWhitespace_ge [of index0 input] by simp
qed

declare parseLoop.simps [simp del]

definition parseGraphQLDefinitions :: "string \<Rightarrow> parse_error + Definition list" where
  "parseGraphQLDefinitions input = parseLoop input 0 []"

subsection \<open>What the splitter emits\<close>

text \<open>
  The depth counter of the source, as a function of the text read: opening braces minus
  closing braces. \<open>closesBlock input b e\<close> says that the brace at \<open>e\<close> is the first one that
  returns the counter, started at \<open>b\<close>, to zero. \<open>definitionAt input (s, e) d\<close> says that
  \<open>d\<close> is the definition whose keyword starts at offset \<open>s\<close> and whose block closes at \<open>e\<close>.
\<close>

definition braceDepth :: "string \<Rightarrow> int" where
  "braceDepth s = int (count_list s CHR ''{'') - int (count_list s CHR ''}'')"

definition closesBlock :: "string \<Rightarrow> nat \<Rightarrow> nat \<Rightarrow> bool" where
  "closesBlock input b e =
     (b \<le> e \<and> e < length input \<and> input ! e = CHR ''}'' \<and>
      braceDepth (substring input b (e + 1)) = 0 \<and>
      list_all (\<lambda>j. 0 < braceDepth (substring input b (j + 1))) [b..<e])"

definition definitionAt :: "string \<Rightarrow> nat \<times> nat \<Rightarrow> Definition \<Rightarrow> bool" where
  "definitionAt input span d =
     (let s = fst span; e = snd span;
          name = takeWhile is_ident
                   (drop (skipWhitespace input (s + length (keyword (type d)))) input)
      in startsWith input (keyword (type d)) s \<and>
         name \<noteq> [] \<and>
         filename d = computeFilename (type d) name \<and>
         content d = substring input s (e + 1) \<and>
         closesBlock input (skipToBrace input s) e)"

section \<open>Definition Grouper (src/lib/graphql-merge.ts)\<close>

text \<open>
  \<open>groups\<close> is a plain JavaScript object used as a dictionary from filename to the list of
  its definitions. The model keeps its own properties in insertion order. A plain object
  inherits the properties of \<open>Object.prototype\<close>: for such a name \<open>acc[name]\<close> is not
  nullish, so \<open>??=\<close> assigns nothing, and the inherited value has no \<open>push\<close>: the call
  throws a TypeError.
\<close>

datatype merge_error = TypeError string

definition objectPrototypeKeys :: "string list" where
  "objectPrototypeKeys =
     [''constructor'', ''__defineGetter__'', ''__defineSetter__'', ''hasOwnProperty'',
      ''__lookupGetter__'', ''__lookupSetter__'', ''isPrototypeOf'', ''propertyIsEnumerable'',
      ''toString'', ''valueOf'', ''__proto__'', ''toLocaleString'']"

type_synonym groups = "(string \<times> Definition list) list"

text \<open>\<open>(acc[def.filename] ??= []).push(def)\<close>, for every definition in turn (\<open>reduce\<close>).\<close>

fun pushDefinition :: "groups \<Rightarrow> Definition \<Rightarrow> groups" where
  "pushDefinition [] d = [(filename d, [d])]"
| "pushDefinition ((k, defs) # acc) d =
     (if k = filename d then (k, defs @ [d]) # acc else (k, defs) # pushDefinition acc d)"

fun groupDefinitions :: "groups \<Rightarrow> Definition list \<Rightarrow> merge_error + groups" where
  "groupDefinitions acc [] = Inr acc"
| "groupDefinitions acc (d # ds) =
     (if filename d \<notin> fst ` set acc \<and> filename d \<in> set objectPrototypeKeys
      then Inl (TypeError (filename d))
      else groupDefinitions (pushDefinition acc d) ds)"

text \<open>
  \<open>Object.entries\<close> lists the own properties that are array indices (canonical decimal
  numerals below \<open>4294967295\<close>, that is \<open>2^32 - 1\<close>) first, in ascending numeric order, and then the other string
  keys in insertion order.
\<close>

definition decimalValue :: "string \<Rightarrow> int" where
  "decimalValue s = foldl (\<lambda>n c. 10 * n + (of_char c - 48)) 0 s"

definition isArrayIndex :: "string \<Rightarrow> bool" where
  "isArrayIndex s =
     (s \<noteq> [] \<and> list_all (\<lambda>c. 48 \<le> (of_char c :: nat) \<and> (of_char c :: nat) \<le> 57) s \<and>
      (s = ''0'' \<or> hd s \<noteq> CHR ''0'') \<and> decimalValue s < 4294967295)"

definition objectEntries :: "(string \<times> 'a) list \<Rightarrow> (string \<times> 'a) list" where
  "objectEntries obj =
     sort_key (\<lambda>e. decimalValue (fst e)) (filter (\<lambda>e. isArrayIndex (fst e)) obj)
       @ filter (\<lambda>e. \<not> isArrayIndex (fst e)) obj"

text \<open>
  \<open>Array.prototype.sort\<close> with a comparison function. The sort is stable; for a consistent
  comparison function (a total preorder) its result is the stable sorted permutation,
  which is what insertion from the right computes.
\<close>

fun insertSorted :: "('a \<Rightarrow> 'a \<Rightarrow> int) \<Rightarrow> 'a \<Rightarrow> 'a list \<Rightarrow> 'a list" where
  "insertSorted cmp x [] = [x]"
| "insertSorted cmp x (y # ys) =
     (if cmp x y \<le> 0 then x # y # ys else y # insertSorted cmp x ys)"

definition jsSort :: "('a \<Rightarrow> 'a \<Rightarrow> int) \<Rightarrow> 'a list \<Rightarrow> 'a list" where
  "jsSort cmp xs = foldr (insertSorted cmp) xs []"

text \<open>
  \<open>String.prototype.localeCompare\<close> belongs to the runtime (its collation depends on the
  locale): it is the parameter \<open>lc\<close> of the model.
\<close>

definition compareDefinitions :: "(string \<Rightarrow> string \<Rightarrow> int) \<Rightarrow> Definition \<Rightarrow> Definition \<Rightarrow> int" where
  "compareDefinitions lc a b =
     (if type a = type b then lc (content a) (content b)
      else if type a = Query then - 1 else 1)"

definition sortedGroups :: "(string \<Rightarrow> string \<Rightarrow> int) \<Rightarrow> groups \<Rightarrow> groups" where
  "sortedGroups lc grps =
     map (\<lambda>(file, defs). (file, jsSort (compareDefinitions lc) defs))
       (jsSort (\<lambda>a b. lc (fst a) (fst b)) (objectEntries grps))"

definition join :: "string \<Rightarrow> string list \<Rightarrow> string" where
  "join sep xs = (case xs of [] \<Rightarrow> [] | y # ys \<Rightarrow> y @ concat (map (\<lambda>z. sep @ z) ys))"

definition wrapContent :: "Definition \<Rightarrow> string" where
  "wrapContent d = ''graphql`'' @ content d @ ''`''"

definition mergedFile :: "string \<times> Definition list \<Rightarrow> MergedDefinition" where
  "mergedFile g = \<lparr>filename = fst g, content = join [CHR 0x0A] (map wrapContent (snd g))\<rparr>"

definition mergeDefinitions ::
  "(string \<Rightarrow> string \<Rightarrow> int) \<Rightarrow> Definition list \<Rightarrow> merge_error + MergedDefinition list" where
  "mergeDefinitions lc definitions =
     (case groupDefinitions [] definitions of
        Inl e \<Rightarrow> Inl e
      | Inr grps \<Rightarrow> Inr (map mergedFile (sortedGroups lc grps)))"

text \<open>
  Two comparison functions for concrete inputs. \<open>ordinalCompare\<close> compares code unit by
  code unit. \<open>alphabeticCompare\<close> is the comparison every ICU collation makes on strings of
  ASCII letters, digits and full stops: first ignoring case (full stop before digits
  before letters), and between strings equal up to case, lower case first at the first
  difference.
\<close>

fun lexCompare :: "int list \<Rightarrow> int list \<Rightarrow> int" where
  "lexCompare [] [] = 0"
| "lexCompare [] (y # ys) = - 1"
| "lexCompare (x # xs) [] = 1"
| "lexCompare (x # xs) (y # ys) =
     (if x < y then - 1 else if y < x then 1 else lexCompare xs ys)"

definition ordinalCompare :: "string \<Rightarrow> string \<Rightarrow> int" where
  "ordinalCompare a b = lexCompare (map of_char a) (map of_char b)"

definition primaryWeight :: "char \<Rightarrow> int" where
  "primaryWeight c =
     (let n = (of_char c :: int)
      in if 65 \<le> n \<and> n \<le> 90 then 1000 + n + 32
         else if 97 \<le> n \<and> n \<le> 122 then 1000 + n
         else n)"

definition caseWeight :: "char \<Rightarrow> int" where
  "caseWeight c = (let n = (of_char c :: int) in if 65 \<le> n \<and> n \<le> 90 then 1 else 0)"

definition alphabeticCompare :: "string \<Rightarrow> string \<Rightarrow> int" where
  "alphabeticCompare a b =
     (let p = lexCompare (map primaryWeight a) (map primaryWeight b)
      in if p \<noteq> 0 then p else lexCompare (map caseWeight a) (map caseWeight b))"

definition consistentComparator :: "('a \<Rightarrow> 'a \<Rightarrow> int) \<Rightarrow> bool" where
  "consistentComparator cmp =
     ((\<forall>a b. cmp a b < 0 \<longleftrightarrow> 0 < cmp b a) \<and>
      (\<forall>a b c. cmp a b \<le> 0 \<and> cmp b c \<le> 0 \<longrightarrow> cmp a c \<le> 0))"

section \<open>Fragment Inliner (inline-relay-query.ts, the revision with createArgumentKey)\<close>

text \<open>
  The repository carries two revisions of \<open>src/lib/inline-relay-query.ts\<close>. Embedded here is
  the later one, with \<open>normalizeValueNode\<close>, \<open>createArgumentKey\<close>, \<open>createFieldKey\<close>,
  \<open>createInlineFragmentKey\<close>, \<open>deduplicateSelections\<close>, \<open>mergeSelectionSets\<close>,
  \<open>inlineFragmentSpreads\<close> and \<open>inlineFragmentsInDocument\<close>. The earlier one
  (\<open>mergeSelections\<close>, \<open>inlineFragments\<close>) walks a document in the same way, but keys a
  field by its alias or name followed by the printed argument nodes, in source order; its
  merger is embedded below, after the later one.
\<close>

subsection \<open>The document\<close>

text \<open>
  The nodes of the GraphQL AST (graphql-js 16) with the properties the source reads or
  prints. \<open>IntValue\<close>, \<open>FloatValue\<close>, \<open>StringValue\<close> and \<open>EnumValue\<close> carry their text.
  A location is the pair \<open>start\<close>, \<open>end\<close> that \<open>JSON.stringify\<close> prints for \<open>loc\<close>; it is
  \<open>None\<close> in a document parsed with \<open>noLocation\<close>. A name node is its \<open>value\<close> and its
  location. The nodes that the source prints (arguments, values, and a fragment spread
  with its directives) carry their locations; the locations and directives of fields,
  inline fragments and definitions are carried along by the object spreads of the source,
  never read, and are not part of the model. Names are strings; those the GraphQL lexer
  produces consist of letters, digits and underscores.
\<close>

type_synonym Location = "(nat \<times> nat) option"

datatype ValueNode =
    Variable string Location Location
      \<comment> \<open>name.value, name.loc, loc\<close>
  | IntValue string Location
  | FloatValue string Location
  | StringValue string bool Location
      \<comment> \<open>value, block, loc\<close>
  | BooleanValue bool Location
  | NullValue Location
  | EnumValue string Location
  | ListValue "ValueNode list" Location
  | ObjectValue "ObjectFieldNode list" Location
and ObjectFieldNode = ObjectField string Location ValueNode Location
      \<comment> \<open>name.value, name.loc, value, loc\<close>

datatype ArgumentNode =
  Argument (argumentName: string) (argumentNameLoc: Location) (argumentValue: ValueNode)
    (argumentLoc: Location)
      \<comment> \<open>name.value, name.loc, value, loc\<close>

datatype DirectiveNode = Directive string Location "ArgumentNode list" Location
      \<comment> \<open>name.value, name.loc, arguments, loc\<close>

datatype SelectionNode =
    Field "string option" string "ArgumentNode list" "SelectionNode list option"
      \<comment> \<open>alias, name, arguments, selectionSet\<close>
  | InlineFragment "string option" "SelectionNode list"
      \<comment> \<open>typeCondition, selectionSet\<close>
  | FragmentSpread string Location "DirectiveNode list" Location
      \<comment> \<open>name.value, name.loc, directives, loc\<close>

datatype DefinitionNode =
    OperationDefinition "string option" "SelectionNode list"
      \<comment> \<open>name, selectionSet\<close>
  | FragmentDefinition string string "SelectionNode list"
      \<comment> \<open>name, typeCondition, selectionSet\<close>
  | TypeSystemDefinition string
      \<comment> \<open>any other definition the parser accepts\<close>

subsection \<open>Argument Canonicalizer\<close>

text \<open>
  The values \<open>normalizeValueNode\<close> builds and \<open>JSON.stringify\<close> prints. An object keeps its
  own properties in insertion order. The flag of \<open>JObject\<close> says whether a lookup of
  \<open>__proto__\<close> on the object reaches the accessor of \<open>Object.prototype\<close>: an assignment
  \<open>obj['__proto__'] = v\<close> then calls that accessor, which replaces the prototype of \<open>obj\<close>
  when \<open>v\<close> is an object or \<open>null\<close> and creates no property; otherwise the assignment
  creates an own property like any other.
\<close>

datatype json =
    JNull
  | JBool bool
  | JNumber nat
  | JString string
  | JArray "json list"
  | JObject bool "(string \<times> json) list"

fun mapSet :: "'k \<Rightarrow> 'v \<Rightarrow> ('k \<times> 'v) list \<Rightarrow> ('k \<times> 'v) list" where
  "mapSet k v [] = [(k, v)]"
| "mapSet k v ((k', v') # m) = (if k' = k then (k', v) # m else (k', v') # mapSet k v m)"

fun objectSet :: "json \<Rightarrow> string \<Rightarrow> json \<Rightarrow> json" where
  "objectSet (JObject acc props) k v =
     (if k \<noteq> ''__proto__'' \<or> k \<in> fst ` set props then JObject acc (mapSet k v props)
      else if acc then
        (case v of
           JNull \<Rightarrow> JObject False props
         | JArray _ \<Rightarrow> JObject True props
         | JObject acc' props' \<Rightarrow> JObject (acc' \<and> ''__proto__'' \<notin> fst ` set props') props
         | _ \<Rightarrow> JObject acc props)
      else JObject False (mapSet k v props))"
| "objectSet j k v = j"

fun normalizeValueNode :: "ValueNode \<Rightarrow> json"
  and normalizeFields :: "json \<Rightarrow> ObjectFieldNode list \<Rightarrow> json" where
  "normalizeValueNode (ObjectValue fs l) = normalizeFields (JObject True []) fs"
| "normalizeValueNode (ListValue vals l) = JArray (map normalizeValueNode vals)"
| "normalizeValueNode (Variable n nl l) =
     JObject True [(''type'', JString ''variable''), (''name'', JString n)]"
| "normalizeValueNode (BooleanValue b l) = JBool b"
| "normalizeValueNode (StringValue s block l) = JString s"
| "normalizeValueNode (IntValue s l) = JString s"
| "normalizeValueNode (FloatValue s l) = JString s"
| "normalizeValueNode (EnumValue s l) = JString s"
| "normalizeValueNode (NullValue l) = JNull"
| "normalizeFields obj [] = obj"
| "normalizeFields obj (ObjectField n nl v l # fs) =
     normalizeFields (objectSet obj n (normalizeValueNode v)) fs"

text \<open>\<open>JSON.stringify\<close> on these values; a number is printed in decimal.\<close>

function showNat :: "nat \<Rightarrow> string" where
  "showNat n =
     (if n < 10 then [''0123456789'' ! n]
      else showNat (n div 10) @ [''0123456789'' ! (n mod 10)])"
  by pat_completeness auto
termination
  by (relation "measure id") auto

declare showNat.simps [simp del]

definition hexDigit :: "nat \<Rightarrow> char" where
  "hexDigit n = ''0123456789abcdef'' ! (n mod 16)"

definition escapeChar :: "char \<Rightarrow> string" where
  "escapeChar c =
     (let n = (of_char c :: nat) in
      if n = 34 then [CHR 0x5C, CHR 0x22]
      else if n = 92 then [CHR 0x5C, CHR 0x5C]
      else if n = 8 then [CHR 0x5C, CHR ''b'']
      else if n = 12 then [CHR 0x5C, CHR ''f'']
      else if n = 10 then [CHR 0x5C, CHR ''n'']
      else if n = 13 then [CHR 0x5C, CHR ''r'']
      else if n = 9 then [CHR 0x5C, CHR ''t'']
      else if n < 32 then [CHR 0x5C, CHR ''u'', CHR ''0'', CHR ''0'', hexDigit (n div 16), hexDigit n]
      else [c])"

definition quote :: "string \<Rightarrow> string" where
  "quote s = [CHR 0x22] @ concat (map escapeChar s) @ [CHR 0x22]"

lemma set_objectEntries: "set (objectEntries obj) = set obj"
  by (auto simp: objectEntries_def)

lemma size_element_less: "x \<in> set xs \<Longrightarrow> size x < Suc (size_list size xs)"
  by (induction xs) auto

function stringify :: "json \<Rightarrow> string" where
  "stringify JNull = ''null''"
| "stringify (JBool b) = (if b then ''true'' else ''false'')"
| "stringify (JNumber n) = showNat n"
| "stringify (JString s) = quote s"
| "stringify (JArray xs) = ''['' @ join '','' (map stringify xs) @ '']''"
| "stringify (JObject acc props) =
     ''{'' @ join '','' (map (\<lambda>p. quote (fst p) @ '':'' @ stringify (snd p)) (objectEntries props))
       @ ''}''"
  by pat_completeness auto
termination
proof (relation "measure size", goal_cases)
  case 1
  show ?case by simp
next
  case (2 xs x)
  then show ?case by (simp add: size_element_less)
next
  case (3 acc props p)
  then have "p \<in> set props" by (simp add: set_objectEntries)
  moreover have "size (snd p) \<le> size_prod (\<lambda>x. 0) size p" by (cases p) simp
  ultimately have "size (snd p) \<le> size_list (size_prod (\<lambda>x. 0) size) props"
    by (rule size_list_estimation')
  then show ?case by simp
qed

text \<open>
  \<open>createArgumentKey\<close>: the arguments normalised, sorted by name with \<open>localeCompare\<close>
  (the parameter \<open>lc\<close>) and printed; the empty key for no arguments.
\<close>

definition createArgumentKey :: "(string \<Rightarrow> string \<Rightarrow> int) \<Rightarrow> ArgumentNode list \<Rightarrow> string" where
  "createArgumentKey lc args =
     (if args = [] then []
      else
        (let normalizedArgs =
               map (\<lambda>arg. (argumentName arg, normalizeValueNode (argumentValue arg))) args;
             sortedArgs = jsSort (\<lambda>a b. lc (fst a) (fst b)) normalizedArgs
         in stringify
              (JArray (map (\<lambda>a. JObject True [(''name'', JString (fst a)), (''value'', snd a)])
                 sortedArgs))))"

subsection \<open>Selection Merger\<close>

text \<open>
  \<open>JSON.stringify\<close> of a node of the AST: the properties in the order the parser creates
  them, \<open>loc\<close> last, printed through \<open>Location.toJSON\<close> as \<open>{"start":s,"end":e}\<close> and left out
  when the node has no location.
\<close>

definition locProperty :: "Location \<Rightarrow> (string \<times> json) list" where
  "locProperty l =
     (case l of
        None \<Rightarrow> []
      | Some (s, e) \<Rightarrow> [(''loc'', JObject True [(''start'', JNumber s), (''end'', JNumber e)])])"

definition nameJson :: "string \<Rightarrow> Location \<Rightarrow> json" where
  "nameJson v l = JObject True ([(''kind'', JString ''Name''), (''value'', JString v)] @ locProperty l)"

fun valueJson :: "ValueNode \<Rightarrow> json"
  and objectFieldJson :: "ObjectFieldNode \<Rightarrow> json" where
  "valueJson (Variable n nl l) =
     JObject True ([(''kind'', JString ''Variable''), (''name'', nameJson n nl)] @ locProperty l)"
| "valueJson (IntValue s l) =
     JObject True ([(''kind'', JString ''IntValue''), (''value'', JString s)] @ locProperty l)"
| "valueJson (FloatValue s l) =
     JObject True ([(''kind'', JString ''FloatValue''), (''value'', JString s)] @ locProperty l)"
| "valueJson (StringValue s block l) =
     JObject True
       ([(''kind'', JString ''StringValue''), (''value'', JString s), (''block'', JBool block)]
        @ locProperty l)"
| "valueJson (BooleanValue b l) =
     JObject True ([(''kind'', JString ''BooleanValue''), (''value'', JBool b)] @ locProperty l)"
| "valueJson (NullValue l) = JObject True ([(''kind'', JString ''NullValue'')] @ locProperty l)"
| "valueJson (EnumValue s l) =
     JObject True ([(''kind'', JString ''EnumValue''), (''value'', JString s)] @ locProperty l)"
| "valueJson (ListValue vals l) =
     JObject True
       ([(''kind'', JString ''ListValue''), (''values'', JArray (map valueJson vals))]
        @ locProperty l)"
| "valueJson (ObjectValue fs l) =
     JObject True
       ([(''kind'', JString ''ObjectValue''), (''fields'', JArray (map objectFieldJson fs))]
        @ locProperty l)"
| "objectFieldJson (ObjectField n nl v l) =
     JObject True
       ([(''kind'', JString ''ObjectField''), (''name'', nameJson n nl), (''value'', valueJson v)]
        @ locProperty l)"

fun argumentJson :: "ArgumentNode \<Rightarrow> json" where
  "argumentJson (Argument n nl v l) =
     JObject True
       ([(''kind'', JString ''Argument''), (''name'', nameJson n nl), (''value'', valueJson v)]
        @ locProperty l)"

fun directiveJson :: "DirectiveNode \<Rightarrow> json" where
  "directiveJson (Directive n nl args l) =
     JObject True
       ([(''kind'', JString ''Directive''), (''name'', nameJson n nl),
         (''arguments'', JArray (map argumentJson args))]
        @ locProperty l)"

definition fragmentSpreadJson ::
  "string \<Rightarrow> Location \<Rightarrow> DirectiveNode list \<Rightarrow> Location \<Rightarrow> json" where
  "fragmentSpreadJson n nl directives l =
     JObject True
       ([(''kind'', JString ''FragmentSpread''), (''name'', nameJson n nl),
         (''directives'', JArray (map directiveJson directives))]
        @ locProperty l)"

text \<open>
  The three keys. For a node that is neither a field nor an inline fragment, a fragment
  spread, the key holds \<open>JSON.stringify(selection)\<close>.
\<close>

definition createFieldKey ::
  "(string \<Rightarrow> string \<Rightarrow> int) \<Rightarrow> string option \<Rightarrow> string \<Rightarrow> ArgumentNode list \<Rightarrow> string" where
  "createFieldKey lc als nm args =
     (case als of Some a \<Rightarrow> a | None \<Rightarrow> nm) @ createArgumentKey lc args"

definition createInlineFragmentKey :: "string option \<Rightarrow> string" where
  "createInlineFragmentKey tc = ''inline:'' @ (case tc of Some t \<Rightarrow> t | None \<Rightarrow> [])"

definition otherKey :: "string \<Rightarrow> Location \<Rightarrow> DirectiveNode list \<Rightarrow> Location \<Rightarrow> string" where
  "otherKey nm nl directives l =
     ''other:FragmentSpread:'' @ stringify (fragmentSpreadJson nm nl directives l)"

fun selectionKey :: "(string \<Rightarrow> string \<Rightarrow> int) \<Rightarrow> SelectionNode \<Rightarrow> string" where
  "selectionKey lc (Field als nm args sset) = createFieldKey lc als nm args"
| "selectionKey lc (InlineFragment tc sels) = createInlineFragmentKey tc"
| "selectionKey lc (FragmentSpread nm nl ds l) = otherKey nm nl ds l"

text \<open>
  \<open>existing.selectionSet\<close> and \<open>{...existing, selectionSet: s}\<close> for the node found in the
  map. The source casts that node to the kind of the branch; for the names the GraphQL
  lexer produces the keys of the three branches are disjoint, so the node has that kind.
  For other names the model reads a missing selection set as empty and leaves a spread
  as it is.
\<close>

fun selectionSetOf :: "SelectionNode \<Rightarrow> SelectionNode list option" where
  "selectionSetOf (Field als nm args sset) = sset"
| "selectionSetOf (InlineFragment tc sels) = Some sels"
| "selectionSetOf (FragmentSpread nm nl ds l) = None"

fun withSelectionSet :: "SelectionNode \<Rightarrow> SelectionNode list \<Rightarrow> SelectionNode" where
  "withSelectionSet (Field als nm args sset) sels = Field als nm args (Some sels)"
| "withSelectionSet (InlineFragment tc old) sels = InlineFragment tc sels"
| "withSelectionSet (FragmentSpread nm nl ds l) sels = FragmentSpread nm nl ds l"

definition selectionsOf :: "SelectionNode \<Rightarrow> SelectionNode list" where
  "selectionsOf s = (case selectionSetOf s of Some sels \<Rightarrow> sels | None \<Rightarrow> [])"

text \<open>The number of nodes of a selection tree, for the termination of the merge.\<close>

fun nodeSize :: "SelectionNode \<Rightarrow> nat" where
  "nodeSize (Field als nm args sset) =
     Suc (case sset of None \<Rightarrow> 0 | Some ss \<Rightarrow> sum_list (map nodeSize ss))"
| "nodeSize (InlineFragment tc ss) = Suc (sum_list (map nodeSize ss))"
| "nodeSize (FragmentSpread nm nl ds l) = Suc 0"

definition listSize :: "SelectionNode list \<Rightarrow> nat" where
  "listSize sels = sum_list (map nodeSize sels)"

definition valuesSize :: "(string \<times> SelectionNode) list \<Rightarrow> nat" where
  "valuesSize m = listSize (map snd m)"

text \<open>
  The loop of \<open>deduplicateSelections\<close> over the selections, with \<open>selectionMap\<close> (a
  JavaScript \<open>Map\<close>: keys in insertion order, \<open>set\<close> on an existing key keeps its place)
  as an argument. \<open>map snd (dedupLoop lc [] (s1 @ s2))\<close> is the call
  \<open>mergeSelectionSets(set1, set2)\<close>.
\<close>

function dedupLoop ::
  "(string \<Rightarrow> string \<Rightarrow> int) \<Rightarrow> (string \<times> SelectionNode) list \<Rightarrow> SelectionNode list
     \<Rightarrow> (string \<times> SelectionNode) list" where
  "dedupLoop lc selectionMap [] = selectionMap"
| "dedupLoop lc selectionMap (Field als nm args sset # rest) =
     (let key = createFieldKey lc als nm args in
      case map_of selectionMap key of
        Some existing \<Rightarrow>
          (case (selectionSetOf existing, sset) of
             (None, None) \<Rightarrow> dedupLoop lc selectionMap rest
           | (Some es, None) \<Rightarrow>
               dedupLoop lc (mapSet key (withSelectionSet existing es) selectionMap) rest
           | (None, Some ss) \<Rightarrow>
               dedupLoop lc (mapSet key (withSelectionSet existing ss) selectionMap) rest
           | (Some es, Some ss) \<Rightarrow>
               dedupLoop lc
                 (mapSet key (withSelectionSet existing (map snd (dedupLoop lc [] (es @ ss))))
                    selectionMap) rest)
      | None \<Rightarrow> dedupLoop lc (mapSet key (Field als nm args sset) selectionMap) rest)"
| "dedupLoop lc selectionMap (InlineFragment tc sels # rest) =
     (let key = createInlineFragmentKey tc in
      case map_of selectionMap key of
        Some existing \<Rightarrow>
          dedupLoop lc
            (mapSet key
               (withSelectionSet existing (map snd (dedupLoop lc [] (selectionsOf existing @ sels))))
               selectionMap) rest
      | None \<Rightarrow> dedupLoop lc (mapSet key (InlineFragment tc sels) selectionMap) rest)"
| "dedupLoop lc selectionMap (FragmentSpread nm nl ds l # rest) =
     dedupLoop lc (mapSet (otherKey nm nl ds l) (FragmentSpread nm nl ds l) selectionMap) rest"
  by pat_completeness auto

lemma listSize_simps [simp]:
  "listSize [] = 0" "listSize (x # xs) = nodeSize x + listSize xs"
  "listSize (xs @ ys) = listSize xs + listSize ys"
  by (simp_all add: listSize_def)

lemma nodeSize_selectionSetOf:
  "nodeSize s = Suc (case selectionSetOf s of None \<Rightarrow> 0 | Some ss \<Rightarrow> listSize ss)"
  by (cases s) (auto simp: listSize_def split: option.splits)

lemma nodeSize_pos: "0 < nodeSize s"
  by (cases s) simp_all

lemma nodeSize_withSelectionSet: "nodeSize (withSelectionSet s ss) \<le> Suc (listSize ss)"
  by (cases s) (simp_all add: listSize_def)

lemma listSize_selectionsOf: "listSize (selectionsOf s) < nodeSize s"
  by (cases s) (auto simp: selectionsOf_def listSize_def split: option.splits)

lemma valuesSize_mapSet:
  "valuesSize (mapSet k v m) + (case map_of m k of None \<Rightarrow> 0 | Some e \<Rightarrow> nodeSize e) =
   valuesSize m + nodeSize v"
  by (induction m) (auto simp: valuesSize_def)

lemma valuesSize_member: "map_of m k = Some e \<Longrightarrow> nodeSize e \<le> valuesSize m"
  by (induction m) (auto simp: valuesSize_def split: if_splits)

lemma valuesSize_Nil [simp]: "valuesSize [] = 0"
  by (simp add: valuesSize_def)

lemma valuesSize_mapSet_new: "map_of m k = None \<Longrightarrow> valuesSize (mapSet k v m) = valuesSize m + nodeSize v"
  using valuesSize_mapSet [of k v m] by simp

lemma valuesSize_mapSet_old:
  "map_of m k = Some e \<Longrightarrow> valuesSize (mapSet k v m) + nodeSize e = valuesSize m + nodeSize v"
  using valuesSize_mapSet [of k v m] by simp

lemma valuesSize_mapSet_le: "valuesSize (mapSet k v m) \<le> valuesSize m + nodeSize v"
  using valuesSize_mapSet [of k v m] by simp

lemma dedupLoop_size:
  "dedupLoop_dom (lc, m, sels) \<Longrightarrow> valuesSize (dedupLoop lc m sels) \<le> valuesSize m + listSize sels"
proof (induction lc m sels rule: dedupLoop.pinduct)
  case (1 lc selectionMap)
  then show ?case by (simp add: dedupLoop.psimps)
next
  case (2 lc selectionMap als nm args sset rest)
  let ?key = "createFieldKey lc als nm args"
  let ?sel = "Field als nm args sset"
  note dom = "2.hyps"
  show ?case
  proof (cases "map_of selectionMap ?key")
    case None
    then have eq: "dedupLoop lc selectionMap (?sel # rest) =
        dedupLoop lc (mapSet ?key ?sel selectionMap) rest"
      using dom by (simp add: dedupLoop.psimps)
    from "2.IH"(1) [OF refl None]
    have "valuesSize (dedupLoop lc (mapSet ?key ?sel selectionMap) rest)
            \<le> valuesSize (mapSet ?key ?sel selectionMap) + listSize rest" .
    with eq valuesSize_mapSet_new [OF None, of ?sel] show ?thesis by simp
  next
    case (Some existing)
    note old = valuesSize_mapSet_old [OF Some]
    show ?thesis
    proof (cases "selectionSetOf existing")
      case eNone: None
      show ?thesis
      proof (cases sset)
        case None
        then have eq: "dedupLoop lc selectionMap (?sel # rest) = dedupLoop lc selectionMap rest"
          using dom Some eNone by (simp add: dedupLoop.psimps)
        from "2.IH"(2) [OF refl Some refl eNone None] eq show ?thesis by simp
      next
        case (Some ss)
        let ?merged = "withSelectionSet existing ss"
        from Some have eq: "dedupLoop lc selectionMap (?sel # rest) =
            dedupLoop lc (mapSet ?key ?merged selectionMap) rest"
          using dom \<open>map_of selectionMap ?key = Some existing\<close> eNone
          by (simp add: dedupLoop.psimps)
        from "2.IH"(3) [OF refl \<open>map_of selectionMap ?key = Some existing\<close> refl eNone Some]
        have "valuesSize (dedupLoop lc (mapSet ?key ?merged selectionMap) rest)
                \<le> valuesSize (mapSet ?key ?merged selectionMap) + listSize rest" .
        moreover have "nodeSize ?merged \<le> Suc (listSize ss)" by (rule nodeSize_withSelectionSet)
        moreover have "nodeSize ?sel = Suc (listSize ss)" using Some by (simp add: listSize_def)
        ultimately show ?thesis using eq old [of ?merged] by simp
      qed
    next
      case eSome: (Some es)
      have esz: "nodeSize existing = Suc (listSize es)"
        using eSome nodeSize_selectionSetOf [of existing] by simp
      show ?thesis
      proof (cases sset)
        case None
        let ?merged = "withSelectionSet existing es"
        from None have eq: "dedupLoop lc selectionMap (?sel # rest) =
            dedupLoop lc (mapSet ?key ?merged selectionMap) rest"
          using dom Some eSome by (simp add: dedupLoop.psimps)
        from "2.IH"(4) [OF refl Some refl eSome None]
        have "valuesSize (dedupLoop lc (mapSet ?key ?merged selectionMap) rest)
                \<le> valuesSize (mapSet ?key ?merged selectionMap) + listSize rest" .
        moreover have "nodeSize ?merged \<le> Suc (listSize es)" by (rule nodeSize_withSelectionSet)
        ultimately show ?thesis using eq old [of ?merged] esz by simp
      next
        case (Some ss)
        let ?inner = "map snd (dedupLoop lc [] (es @ ss))"
        let ?merged = "withSelectionSet existing ?inner"
        from Some have eq: "dedupLoop lc selectionMap (?sel # rest) =
            dedupLoop lc (mapSet ?key ?merged selectionMap) rest"
          using dom \<open>map_of selectionMap ?key = Some existing\<close> eSome
          by (simp add: dedupLoop.psimps)
        from "2.IH"(5) [OF refl \<open>map_of selectionMap ?key = Some existing\<close> refl eSome Some]
        have inner: "listSize ?inner \<le> listSize es + listSize ss"
          by (simp add: valuesSize_def)
        from "2.IH"(6) [OF refl \<open>map_of selectionMap ?key = Some existing\<close> refl eSome Some]
        have "valuesSize (dedupLoop lc (mapSet ?key ?merged selectionMap) rest)
                \<le> valuesSize (mapSet ?key ?merged selectionMap) + listSize rest" .
        moreover have "nodeSize ?merged \<le> Suc (listSize ?inner)"
          by (rule nodeSize_withSelectionSet)
        moreover have "nodeSize ?sel = Suc (listSize ss)" using Some by (simp add: listSize_def)
        ultimately show ?thesis using eq old [of ?merged] esz inner by simp
      qed
    qed
  qed
next
  case (3 lc selectionMap tc sels rest)
  let ?key = "createInlineFragmentKey tc"
  let ?sel = "InlineFragment tc sels"
  note dom = "3.hyps"
  have ssz: "nodeSize ?sel = Suc (listSize sels)" by (simp add: listSize_def)
  show ?case
  proof (cases "map_of selectionMap ?key")
    case None
    then have eq: "dedupLoop lc selectionMap (?sel # rest) =
        dedupLoop lc (mapSet ?key ?sel selectionMap) rest"
      using dom by (simp add: dedupLoop.psimps)
    from "3.IH"(1) [OF refl None]
    have "valuesSize (dedupLoop lc (mapSet ?key ?sel selectionMap) rest)
            \<le> valuesSize (mapSet ?key ?sel selectionMap) + listSize rest" .
    with eq valuesSize_mapSet_new [OF None, of ?sel] show ?thesis by simp
  next
    case (Some existing)
    let ?inner = "map snd (dedupLoop lc [] (selectionsOf existing @ sels))"
    let ?merged = "withSelectionSet existing ?inner"
    from Some have eq: "dedupLoop lc selectionMap (?sel # rest) =
        dedupLoop lc (mapSet ?key ?merged selectionMap) rest"
      using dom by (simp add: dedupLoop.psimps)
    from "3.IH"(2) [OF refl Some]
    have inner: "listSize ?inner \<le> listSize (selectionsOf existing) + listSize sels"
      by (simp add: valuesSize_def)
    from "3.IH"(3) [OF refl Some]
    have "valuesSize (dedupLoop lc (mapSet ?key ?merged selectionMap) rest)
            \<le> valuesSize (mapSet ?key ?merged selectionMap) + listSize rest" .
    moreover have "nodeSize ?merged \<le> Suc (listSize ?inner)"
      by (rule nodeSize_withSelectionSet)
    ultimately show ?thesis
      using eq valuesSize_mapSet_old [OF Some, of ?merged] ssz inner
        listSize_selectionsOf [of existing] by simp
  qed
next
  case (4 lc selectionMap nm nl ds l rest)
  then show ?case
    using valuesSize_mapSet_le
      [of "otherKey nm nl ds l" "FragmentSpread nm nl ds l" selectionMap]
    by (simp add: dedupLoop.psimps)
qed

termination dedupLoop
proof (relation "measures [\<lambda>(lc, m, sels). valuesSize m + listSize sels, \<lambda>(lc, m, sels). length sels]", goal_cases)
  case 1
  show ?case by simp
next
  case (2 lc selectionMap als nm args sset rest x)
  then show ?case by (simp add: valuesSize_mapSet_new)
next
  case (3 lc selectionMap als nm args sset rest x x2 xa y)
  then show ?case by simp
next
  case (4 lc selectionMap als nm args sset rest x x2 xa y x2a)
  then have "sset = Some x2a" "map_of selectionMap x = Some x2" by simp_all
  then show ?case
    using valuesSize_mapSet_old [of selectionMap x x2 "withSelectionSet x2 x2a"]
      nodeSize_withSelectionSet [of x2 x2a] nodeSize_pos [of x2]
    by (simp add: listSize_def)
next
  case (5 lc selectionMap als nm args sset rest x x2 xa y x2a)
  then have "sset = None" "map_of selectionMap x = Some x2" "selectionSetOf x2 = Some x2a"
    by simp_all
  then show ?case
    using valuesSize_mapSet_old [of selectionMap x x2 "withSelectionSet x2 x2a"]
      nodeSize_withSelectionSet [of x2 x2a] nodeSize_selectionSetOf [of x2]
    by (simp add: listSize_def)
next
  case (6 lc selectionMap als nm args sset rest x x2 xa y x2a x2b)
  then have "sset = Some x2b" "map_of selectionMap x = Some x2" "selectionSetOf x2 = Some x2a"
    by simp_all
  then show ?case
    using valuesSize_member [of selectionMap x x2] nodeSize_selectionSetOf [of x2]
    by (simp add: listSize_def)
next
  case (7 lc selectionMap als nm args sset rest x x2 xa y x2a x2b)
  then have "sset = Some x2b" "map_of selectionMap x = Some x2" "selectionSetOf x2 = Some x2a"
    "dedupLoop_dom (lc, [], x2a @ x2b)"
    by simp_all
  then show ?case
    using valuesSize_mapSet_old [of selectionMap x x2
        "withSelectionSet x2 (map snd (dedupLoop lc [] (x2a @ x2b)))"]
      nodeSize_withSelectionSet [of x2 "map snd (dedupLoop lc [] (x2a @ x2b))"]
      nodeSize_selectionSetOf [of x2]
      dedupLoop_size [of lc "[]" "x2a @ x2b"]
    by (simp add: valuesSize_def listSize_def)
next
  case (8 lc selectionMap tc sels rest x)
  then show ?case by (simp add: valuesSize_mapSet_new)
next
  case (9 lc selectionMap tc sels rest x x2)
  then show ?case
    using valuesSize_member [of selectionMap x x2] listSize_selectionsOf [of x2]
    by (simp add: listSize_def)
next
  case (10 lc selectionMap tc sels rest x x2)
  then show ?case
    using valuesSize_mapSet_old [of selectionMap x x2
        "withSelectionSet x2 (map snd (dedupLoop lc [] (selectionsOf x2 @ sels)))"]
      nodeSize_withSelectionSet [of x2 "map snd (dedupLoop lc [] (selectionsOf x2 @ sels))"]
      listSize_selectionsOf [of x2]
      dedupLoop_size [of lc "[]" "selectionsOf x2 @ sels"]
    by (simp add: listSize_def valuesSize_def)
next
  case (11 lc selectionMap nm nl ds l rest)
  then show ?case
    using valuesSize_mapSet_le
      [of "otherKey nm nl ds l" "FragmentSpread nm nl ds l" selectionMap]
    by auto
qed

declare dedupLoop.simps [simp del]

definition deduplicateSelections ::
  "(string \<Rightarrow> string \<Rightarrow> int) \<Rightarrow> SelectionNode list \<Rightarrow> SelectionNode list" where
  "deduplicateSelections lc sels = map snd (dedupLoop lc [] sels)"

definition mergeSelectionSets ::
  "(string \<Rightarrow> string \<Rightarrow> int) \<Rightarrow> SelectionNode list \<Rightarrow> SelectionNode list \<Rightarrow> SelectionNode list" where
  "mergeSelectionSets lc set1 set2 = deduplicateSelections lc (set1 @ set2)"

subsection \<open>Fragment Inliner\<close>

text \<open>
  \<open>fragmentMap\<close> is a plain object: its own properties, and its prototype when a
  fragment named \<open>__proto__\<close> has replaced it (the assignment \<open>fragmentMap['__proto__'] = def\<close>
  calls the accessor of \<open>Object.prototype\<close> and creates no property). A lookup
  \<open>fragmentMap[name]\<close> yields the own property; else, through the prototype chain, the
  fragment that became the prototype (for \<open>__proto__\<close>), one of its properties, or a
  property of \<open>Object.prototype\<close>; else \<open>undefined\<close>. The inherited values are truthy and
  have no \<open>selectionSet\<close>.
\<close>

record FragmentMap =
  own :: "(string \<times> SelectionNode list) list"
  proto :: "SelectionNode list option"

text \<open>Of a fragment definition the map entry keeps the selections, all the inliner reads.\<close>

datatype lookupResult = Found "SelectionNode list" | Inherited | Undefined

definition fragmentNodeKeys :: "string list" where
  "fragmentNodeKeys = [''kind'', ''name'', ''typeCondition'', ''directives'', ''selectionSet'', ''loc'']"

fun buildFragmentMap :: "FragmentMap \<Rightarrow> DefinitionNode list \<Rightarrow> FragmentMap" where
  "buildFragmentMap fragmentMap [] = fragmentMap"
| "buildFragmentMap fragmentMap (FragmentDefinition nm tc sels # defs) =
     buildFragmentMap
       (if nm = ''__proto__'' then fragmentMap\<lparr>proto := Some sels\<rparr>
        else fragmentMap\<lparr>own := mapSet nm sels (own fragmentMap)\<rparr>) defs"
| "buildFragmentMap fragmentMap (d # defs) = buildFragmentMap fragmentMap defs"

definition lookupFragment :: "FragmentMap \<Rightarrow> string \<Rightarrow> lookupResult" where
  "lookupFragment fragmentMap nm =
     (case map_of (own fragmentMap) nm of
        Some sels \<Rightarrow> Found sels
      | None \<Rightarrow>
          if nm = ''__proto__'' then
            (case proto fragmentMap of Some sels \<Rightarrow> Found sels | None \<Rightarrow> Inherited)
          else if (proto fragmentMap \<noteq> None \<and> nm \<in> set fragmentNodeKeys)
                    \<or> nm \<in> set objectPrototypeKeys then Inherited
          else Undefined)"

datatype inlineError = FragmentNotFound string   \<comment> \<open>\<open>Fragment "name" not found\<close>\<close>

text \<open>
  The loop of \<open>inlineFragmentSpreads\<close> over the selections of a node: the result is the
  list \<open>newSelections\<close>. The recursion follows fragment spreads, so it need not end:
  \<open>None\<close> is the call that never returns. \<open>Some (Inl e)\<close> is the thrown error.
\<close>

partial_function (option) inlineSelections ::
  "(string \<Rightarrow> string \<Rightarrow> int) \<Rightarrow> FragmentMap \<Rightarrow> SelectionNode list
     \<Rightarrow> (inlineError + SelectionNode list) option" where
  [code]: "inlineSelections lc fragmentMap sels =
     (case sels of
        [] \<Rightarrow> Some (Inr [])
      | selection # rest \<Rightarrow>
          (case selection of
             FragmentSpread fragmentName nl ds l \<Rightarrow>
               (case lookupFragment fragmentMap fragmentName of
                  Undefined \<Rightarrow> Some (Inl (FragmentNotFound fragmentName))
                | Inherited \<Rightarrow> inlineSelections lc fragmentMap rest
                | Found fragment \<Rightarrow>
                    Option.bind (inlineSelections lc fragmentMap fragment) (\<lambda>r.
                      case r of
                        Inl e \<Rightarrow> Some (Inl e)
                      | Inr inlined \<Rightarrow>
                          Option.bind (inlineSelections lc fragmentMap rest) (\<lambda>r'.
                            case r' of
                              Inl e \<Rightarrow> Some (Inl e)
                            | Inr others \<Rightarrow> Some (Inr (deduplicateSelections lc inlined @ others)))))
           | Field als nm args None \<Rightarrow>
               Option.bind (inlineSelections lc fragmentMap rest) (\<lambda>r'.
                 case r' of
                   Inl e \<Rightarrow> Some (Inl e)
                 | Inr others \<Rightarrow> Some (Inr (Field als nm args None # others)))
           | Field als nm args (Some nested) \<Rightarrow>
               Option.bind (inlineSelections lc fragmentMap nested) (\<lambda>r.
                 case r of
                   Inl e \<Rightarrow> Some (Inl e)
                 | Inr inlined \<Rightarrow>
                     Option.bind (inlineSelections lc fragmentMap rest) (\<lambda>r'.
                       case r' of
                         Inl e \<Rightarrow> Some (Inl e)
                       | Inr others \<Rightarrow>
                           Some (Inr (Field als nm args (Some (deduplicateSelections lc inlined))
                                        # others))))
           | InlineFragment tc nested \<Rightarrow>
               Option.bind (inlineSelections lc fragmentMap nested) (\<lambda>r.
                 case r of
                   Inl e \<Rightarrow> Some (Inl e)
                 | Inr inlined \<Rightarrow>
                     Option.bind (inlineSelections lc fragmentMap rest) (\<lambda>r'.
                       case r' of
                         Inl e \<Rightarrow> Some (Inl e)
                       | Inr others \<Rightarrow>
                           Some (Inr (InlineFragment tc (deduplicateSelections lc inlined)
                                        # others))))))"

text \<open>
  \<open>inlineFragmentSpreads\<close> on an operation definition, and \<open>inlineFragmentsInDocument\<close>:
  the operation definitions of the document, each inlined, in order.
\<close>

fun inlineOperations ::
  "(string \<Rightarrow> string \<Rightarrow> int) \<Rightarrow> FragmentMap \<Rightarrow> DefinitionNode list
     \<Rightarrow> (inlineError + DefinitionNode list) option" where
  "inlineOperations lc fragmentMap [] = Some (Inr [])"
| "inlineOperations lc fragmentMap (OperationDefinition nm sels # defs) =
     Option.bind (inlineSelections lc fragmentMap sels) (\<lambda>r.
       case r of
         Inl e \<Rightarrow> Some (Inl e)
       | Inr inlined \<Rightarrow>
           Option.bind (inlineOperations lc fragmentMap defs) (\<lambda>r'.
             case r' of
               Inl e \<Rightarrow> Some (Inl e)
             | Inr others \<Rightarrow>
                 Some (Inr (OperationDefinition nm (deduplicateSelections lc inlined) # others))))"
| "inlineOperations lc fragmentMap (d # defs) = inlineOperations lc fragmentMap defs"

definition inlineFragmentsInDocument ::
  "(string \<Rightarrow> string \<Rightarrow> int) \<Rightarrow> DefinitionNode list \<Rightarrow> (inlineError + DefinitionNode list) option" where
  "inlineFragmentsInDocument lc ast =
     inlineOperations lc (buildFragmentMap \<lparr>own = [], proto = None\<rparr> ast) ast"

text \<open>A leaf field without alias and arguments.\<close>

definition fld :: "string \<Rightarrow> SelectionNode" where
  "fld nm = Field None nm [] None"

text \<open>
  A fragment spread without directives and an argument, both of a document parsed with
  \<open>noLocation\<close>.
\<close>

definition spread :: "string \<Rightarrow> SelectionNode" where
  "spread nm = FragmentSpread nm None [] None"

definition argumentOf :: "string \<Rightarrow> ValueNode \<Rightarrow> ArgumentNode" where
  "argumentOf nm v = Argument nm None v None"

section \<open>Selection Merger of the earlier revision (inline-relay-query.ts, mergeSelections)\<close>

text \<open>
  \<open>mergeSelections\<close> of the earlier revision of \<open>src/lib/inline-relay-query.ts\<close>. It keeps the
  result in an array \<open>merged\<close> beside the map \<open>seen\<close> of the keys, and writes a merged node
  into the array at the index \<open>findIndex\<close> returns.
\<close>

text \<open>
  \<open>selection.alias ? selection.alias.value : selection.name.value\<close>, and
  \<open>JSON.stringify(selection.arguments || [])\<close>: the argument nodes as the parser made them,
  in source order and with their locations.
\<close>

definition fieldAlias :: "string option \<Rightarrow> string \<Rightarrow> string" where
  "fieldAlias als nm = (case als of Some a \<Rightarrow> a | None \<Rightarrow> nm)"

definition printedArguments :: "ArgumentNode list \<Rightarrow> string" where
  "printedArguments args = stringify (JArray (map argumentJson args))"

text \<open>
  The two predicates of \<open>merged.findIndex\<close>: a field whose alias (when it is not empty) or
  name is \<open>a\<close>, whatever its arguments; an inline fragment on the type \<open>t\<close>. Then
  \<open>if (index !== -1) merged[index] = v\<close>.
\<close>

fun fieldWithAlias :: "string \<Rightarrow> SelectionNode \<Rightarrow> bool" where
  "fieldWithAlias a (Field als nm args sset) =
     ((case als of Some v \<Rightarrow> if v = [] then nm else v | None \<Rightarrow> nm) = a)"
| "fieldWithAlias a (InlineFragment tc sels) = False"
| "fieldWithAlias a (FragmentSpread nm nl ds l) = False"

fun inlineFragmentOn :: "string \<Rightarrow> SelectionNode \<Rightarrow> bool" where
  "inlineFragmentOn t (InlineFragment tc sels) = ((case tc of Some v \<Rightarrow> v | None \<Rightarrow> []) = t)"
| "inlineFragmentOn t (Field als nm args sset) = False"
| "inlineFragmentOn t (FragmentSpread nm nl ds l) = False"

fun replaceFirst :: "('a \<Rightarrow> bool) \<Rightarrow> 'a \<Rightarrow> 'a list \<Rightarrow> 'a list" where
  "replaceFirst p v [] = []"
| "replaceFirst p v (x # xs) = (if p x then v # xs else x # replaceFirst p v xs)"

text \<open>The nesting depth of a selection tree, for the termination of the merge.\<close>

fun nodeDepth :: "SelectionNode \<Rightarrow> nat" where
  "nodeDepth (Field als nm args sset) =
     (case sset of None \<Rightarrow> 0 | Some ss \<Rightarrow> Suc (foldr max (map nodeDepth ss) 0))"
| "nodeDepth (InlineFragment tc ss) = Suc (foldr max (map nodeDepth ss) 0)"
| "nodeDepth (FragmentSpread nm nl ds l) = 0"

definition listDepth :: "SelectionNode list \<Rightarrow> nat" where
  "listDepth sels = foldr max (map nodeDepth sels) 0"

definition valuesDepth :: "(string \<times> SelectionNode) list \<Rightarrow> nat" where
  "valuesDepth m = listDepth (map snd m)"

text \<open>
  The loop of \<open>mergeSelections\<close> over the selections, with the map \<open>seen\<close> and the array
  \<open>merged\<close> as arguments. \<open>mergeLoop [] [] (s1 @ s2)\<close> is the call
  \<open>mergeSelectionSets(set1, set2)\<close> of this revision. As in the later revision, the node
  found in the map is cast to the kind of the branch: a missing selection set is read as
  empty, and a spread is left as it is.
\<close>

function mergeLoop ::
  "(string \<times> SelectionNode) list \<Rightarrow> SelectionNode list \<Rightarrow> SelectionNode list \<Rightarrow> SelectionNode list" where
  "mergeLoop seen merged [] = merged"
| "mergeLoop seen merged (Field als nm args sset # rest) =
     (let key = fieldAlias als nm @ printedArguments args in
      case map_of seen key of
        Some existing \<Rightarrow>
          (case sset of
             None \<Rightarrow> mergeLoop seen merged rest
           | Some ss \<Rightarrow>
               (case selectionSetOf existing of
                  Some es \<Rightarrow>
                    mergeLoop
                      (mapSet key (withSelectionSet existing (mergeLoop [] [] (es @ ss))) seen)
                      (replaceFirst (fieldWithAlias (fieldAlias als nm))
                         (withSelectionSet existing (mergeLoop [] [] (es @ ss))) merged)
                      rest
                | None \<Rightarrow>
                    mergeLoop (mapSet key (withSelectionSet existing ss) seen)
                      (replaceFirst (fieldWithAlias (fieldAlias als nm))
                         (withSelectionSet existing ss) merged)
                      rest))
      | None \<Rightarrow>
          mergeLoop (mapSet key (Field als nm args sset) seen)
            (merged @ [Field als nm args sset]) rest)"
| "mergeLoop seen merged (InlineFragment tc sels # rest) =
     (let typeName = (case tc of Some t \<Rightarrow> t | None \<Rightarrow> []);
          key = ''inline:'' @ typeName in
      case map_of seen key of
        Some existing \<Rightarrow>
          mergeLoop
            (mapSet key
               (withSelectionSet existing (mergeLoop [] [] (selectionsOf existing @ sels))) seen)
            (replaceFirst (inlineFragmentOn typeName)
               (withSelectionSet existing (mergeLoop [] [] (selectionsOf existing @ sels))) merged)
            rest
      | None \<Rightarrow>
          mergeLoop (mapSet key (InlineFragment tc sels) seen)
            (merged @ [InlineFragment tc sels]) rest)"
| "mergeLoop seen merged (FragmentSpread nm nl ds l # rest) =
     mergeLoop seen (merged @ [FragmentSpread nm nl ds l]) rest"
  by pat_completeness auto

lemma listDepth_simps [simp]:
  "listDepth [] = 0" "listDepth (x # xs) = max (nodeDepth x) (listDepth xs)"
  "listDepth (xs @ ys) = max (listDepth xs) (listDepth ys)"
  by (induction xs) (simp_all add: listDepth_def)

lemma nodeDepth_listDepth [simp]:
  "nodeDepth (Field als nm args sset) =
     (case sset of None \<Rightarrow> 0 | Some ss \<Rightarrow> Suc (listDepth ss))"
  "nodeDepth (InlineFragment tc ss) = Suc (listDepth ss)"
  by (simp_all add: listDepth_def split: option.splits)

declare nodeDepth.simps(1,2) [simp del]

lemma nodeDepth_withSelectionSet: "nodeDepth (withSelectionSet s ss) \<le> Suc (listDepth ss)"
  by (cases s) simp_all

lemma nodeDepth_selectionSetOf:
  "selectionSetOf s = Some ss \<Longrightarrow> nodeDepth s = Suc (listDepth ss)"
  by (cases s) (auto simp: listDepth_def)

lemma listDepth_selectionsOf: "listDepth (selectionsOf s) \<le> nodeDepth s"
  by (cases s) (auto simp: selectionsOf_def split: option.splits)

lemma listDepth_selectionsOf_less:
  "listDepth (selectionsOf s) < max (nodeDepth s) (Suc d)"
  by (cases s) (auto simp: selectionsOf_def split: option.splits)

lemma valuesDepth_Nil [simp]: "valuesDepth [] = 0"
  by (simp add: valuesDepth_def)

lemma valuesDepth_mapSet: "valuesDepth (mapSet k v m) \<le> max (valuesDepth m) (nodeDepth v)"
  by (induction m) (auto simp: valuesDepth_def)

lemma valuesDepth_member: "map_of m k = Some e \<Longrightarrow> nodeDepth e \<le> valuesDepth m"
  by (induction m) (auto simp: valuesDepth_def split: if_splits)

lemma listDepth_replaceFirst:
  "listDepth (replaceFirst p v xs) \<le> max (listDepth xs) (nodeDepth v)"
  by (induction xs) auto

lemma mergeLoop_depth:
  "mergeLoop_dom (seen, merged, sels) \<Longrightarrow>
   listDepth (mergeLoop seen merged sels)
     \<le> max (valuesDepth seen) (max (listDepth merged) (listDepth sels))"
proof (induction seen merged sels rule: mergeLoop.pinduct)
  case (1 seen merged)
  then show ?case by (simp add: mergeLoop.psimps Let_def)
next
  case (2 seen merged als nm args sset rest)
  let ?key = "fieldAlias als nm @ printedArguments args"
  let ?sel = "Field als nm args sset"
  let ?p = "fieldWithAlias (fieldAlias als nm)"
  note dom = "2.hyps"
  show ?case
  proof (cases "map_of seen ?key")
    case None
    then have eq: "mergeLoop seen merged (?sel # rest) =
        mergeLoop (mapSet ?key ?sel seen) (merged @ [?sel]) rest"
      using dom by (simp add: mergeLoop.psimps Let_def)
    from "2.IH"(1) [OF refl None] valuesDepth_mapSet [of ?key ?sel seen]
    show ?thesis unfolding eq by simp
  next
    case (Some existing)
    note ex = valuesDepth_member [OF Some]
    show ?thesis
    proof (cases sset)
      case None
      then have eq: "mergeLoop seen merged (?sel # rest) = mergeLoop seen merged rest"
        using dom Some by (simp add: mergeLoop.psimps Let_def)
      from "2.IH"(2) [OF refl Some None] show ?thesis unfolding eq by simp
    next
      case sSome: (Some ss)
      show ?thesis
      proof (cases "selectionSetOf existing")
        case None
        let ?new = "withSelectionSet existing ss"
        have eq: "mergeLoop seen merged (?sel # rest) =
            mergeLoop (mapSet ?key ?new seen) (replaceFirst ?p ?new merged) rest"
          using dom Some sSome None by (simp add: mergeLoop.psimps Let_def)
        have "nodeDepth ?new \<le> nodeDepth ?sel"
          using nodeDepth_withSelectionSet [of existing ss] sSome by simp
        with "2.IH"(3) [OF refl Some sSome None] valuesDepth_mapSet [of ?key ?new seen]
          listDepth_replaceFirst [of ?p ?new merged]
        show ?thesis unfolding eq by simp
      next
        case eSome: (Some es)
        let ?inner = "mergeLoop [] [] (es @ ss)"
        let ?new = "withSelectionSet existing ?inner"
        have eq: "mergeLoop seen merged (?sel # rest) =
            mergeLoop (mapSet ?key ?new seen) (replaceFirst ?p ?new merged) rest"
          using dom Some sSome eSome by (simp add: mergeLoop.psimps Let_def)
        from "2.IH"(4) [OF refl Some sSome eSome]
        have inner: "listDepth ?inner \<le> max (listDepth es) (listDepth ss)" by simp
        have "nodeDepth ?new \<le> max (nodeDepth existing) (nodeDepth ?sel)"
          using nodeDepth_withSelectionSet [of existing ?inner] inner
            nodeDepth_selectionSetOf [OF eSome] sSome
          by simp
        with "2.IH"(6) [OF refl Some sSome eSome] valuesDepth_mapSet [of ?key ?new seen]
          listDepth_replaceFirst [of ?p ?new merged] ex
        show ?thesis unfolding eq by simp
      qed
    qed
  qed
next
  case (3 seen merged tc sels rest)
  let ?typeName = "case tc of None \<Rightarrow> [] | Some t \<Rightarrow> t"
  let ?key = "''inline:'' @ ?typeName"
  let ?sel = "InlineFragment tc sels"
  note dom = "3.hyps"
  show ?case
  proof (cases "map_of seen ?key")
    case None
    then have eq: "mergeLoop seen merged (?sel # rest) =
        mergeLoop (mapSet ?key ?sel seen) (merged @ [?sel]) rest"
      using dom by (simp add: mergeLoop.psimps Let_def)
    from "3.IH"(1) [OF refl refl None] valuesDepth_mapSet [of ?key ?sel seen]
    show ?thesis unfolding eq by simp
  next
    case (Some existing)
    let ?inner = "mergeLoop [] [] (selectionsOf existing @ sels)"
    let ?new = "withSelectionSet existing ?inner"
    have eq: "mergeLoop seen merged (?sel # rest) =
        mergeLoop (mapSet ?key ?new seen) (replaceFirst (inlineFragmentOn ?typeName) ?new merged) rest"
      using dom Some by (simp add: mergeLoop.psimps Let_def)
    from "3.IH"(2) [OF refl refl Some]
    have inner: "listDepth ?inner \<le> max (listDepth (selectionsOf existing)) (listDepth sels)"
      by simp
    have "nodeDepth ?new \<le> max (nodeDepth existing) (nodeDepth ?sel)"
      using nodeDepth_withSelectionSet [of existing ?inner] inner
        listDepth_selectionsOf_less [of existing "listDepth sels"]
      by simp
    with "3.IH"(4) [OF refl refl Some] valuesDepth_mapSet [of ?key ?new seen]
      listDepth_replaceFirst [of "inlineFragmentOn ?typeName" ?new merged]
      valuesDepth_member [OF Some]
    show ?thesis unfolding eq by simp
  qed
next
  case (4 seen merged nm nl ds l rest)
  then show ?case by (simp add: mergeLoop.psimps Let_def)
qed

termination mergeLoop
proof (relation "measures [\<lambda>(seen, merged, sels). max (valuesDepth seen) (listDepth sels),
                           \<lambda>(seen, merged, sels). length sels]", goal_cases)
  case 1
  show ?case by simp
next
  case (2 seen merged als nm args sset rest x)
  then show ?case
    using valuesDepth_mapSet [of x "Field als nm args sset" seen] by auto
next
  case (3 seen merged als nm args sset rest x x2)
  then show ?case by auto
next
  case (4 seen merged als nm args sset rest x x2 x2a)
  then show ?case
    using valuesDepth_mapSet [of x "withSelectionSet x2 x2a" seen]
      nodeDepth_withSelectionSet [of x2 x2a]
    by auto
next
  case (5 seen merged als nm args sset rest x x2 x2a x2b)
  then show ?case
    using valuesDepth_member [of seen x x2] nodeDepth_selectionSetOf [of x2 x2b]
    by auto
next
  case (6 seen merged als nm args sset rest x x2 x2a x2b)
  then show ?case
    using valuesDepth_member [of seen x x2] nodeDepth_selectionSetOf [of x2 x2b]
    by auto
next
  case (7 seen merged als nm args sset rest x x2 x2a x2b)
  then show ?case
    using valuesDepth_mapSet [of x "withSelectionSet x2 (mergeLoop [] [] (x2b @ x2a))" seen]
      nodeDepth_withSelectionSet [of x2 "mergeLoop [] [] (x2b @ x2a)"]
      mergeLoop_depth [of "[]" "[]" "x2b @ x2a"]
      valuesDepth_member [of seen x x2] nodeDepth_selectionSetOf [of x2 x2b]
    by auto
next
  case (8 seen merged tc sels rest x xa)
  then show ?case
    using valuesDepth_mapSet [of xa "InlineFragment tc sels" seen] by auto
next
  case (9 seen merged tc sels rest x xa x2)
  then show ?case
    using valuesDepth_member [of seen xa x2] listDepth_selectionsOf_less [of x2 "listDepth sels"]
    by auto
next
  case (10 seen merged tc sels rest x xa x2)
  then show ?case
    using valuesDepth_member [of seen xa x2] listDepth_selectionsOf_less [of x2 "listDepth sels"]
    by auto
next
  case (11 seen merged tc sels rest x xa x2)
  then show ?case
    using valuesDepth_mapSet
        [of xa "withSelectionSet x2 (mergeLoop [] [] (selectionsOf x2 @ sels))" seen]
      nodeDepth_withSelectionSet [of x2 "mergeLoop [] [] (selectionsOf x2 @ sels)"]
      mergeLoop_depth [of "[]" "[]" "selectionsOf x2 @ sels"]
      valuesDepth_member [of seen xa x2] listDepth_selectionsOf_less [of x2 "listDepth sels"]
    by auto
next
  case (12 seen merged nm nl ds l rest)
  then show ?case by auto
qed

declare mergeLoop.simps [simp del]

definition mergeSelections :: "SelectionNode list \<Rightarrow> SelectionNode list" where
  "mergeSelections selections = mergeLoop [] [] selections"

section \<open>Properties of the Definition Splitter\<close>

lemma skipWhitespace_spaces:
  "i \<le> j \<Longrightarrow> j < skipWhitespace input i \<Longrightarrow> is_space (input ! j)"
proof (induction input i rule: skipWhitespace.induct)
  case (1 input index)
  show ?case
  proof (cases "index < length input \<and> is_space (input ! index)")
    case True
    then have eq: "skipWhitespace input index = skipWhitespace input (index + 1)"
      by (subst skipWhitespace.simps) simp
    show ?thesis
    proof (cases "j = index")
      case True
      with \<open>index < length input \<and> is_space (input ! index)\<close> show ?thesis by simp
    next
      case False
      with "1.prems" eq have "index + 1 \<le> j" "j < skipWhitespace input (index + 1)" by simp_all
      with "1.IH" True show ?thesis by simp
    qed
  next
    case False
    then have "skipWhitespace input index = index"
      by (subst skipWhitespace.simps) auto
    with "1.prems" show ?thesis by simp
  qed
qed

lemma skipToBrace_no_brace:
  "i \<le> j \<Longrightarrow> j < skipToBrace input i \<Longrightarrow> input ! j \<noteq> CHR ''{''"
proof (induction input i rule: skipToBrace.induct)
  case (1 input index)
  show ?case
  proof (cases "index < length input \<and> input ! index \<noteq> CHR ''{''")
    case True
    then have eq: "skipToBrace input index = skipToBrace input (index + 1)"
      by (subst skipToBrace.simps) simp
    show ?thesis
    proof (cases "j = index")
      case True
      with \<open>index < length input \<and> input ! index \<noteq> CHR ''{''\<close> show ?thesis by simp
    next
      case False
      with "1.prems" eq have "index + 1 \<le> j" "j < skipToBrace input (index + 1)" by simp_all
      with "1.IH" True show ?thesis by simp
    qed
  next
    case False
    then have "skipToBrace input index = index"
      by (subst skipToBrace.simps) auto
    with "1.prems" show ?thesis by simp
  qed
qed

lemma skipToBrace_le_length: "i \<le> length input \<Longrightarrow> skipToBrace input i \<le> length input"
proof (induction input i rule: skipToBrace.induct)
  case (1 input index)
  show ?case
  proof (cases "index < length input \<and> input ! index \<noteq> CHR ''{''")
    case True
    then have eq: "skipToBrace input index = skipToBrace input (index + 1)"
      by (subst skipToBrace.simps) simp
    with "1.IH" True show ?thesis by simp
  next
    case False
    then have "skipToBrace input index = index"
      by (subst skipToBrace.simps) auto
    with "1.prems" show ?thesis by simp
  qed
qed

lemma skipToBrace_at:
  "skipToBrace input i < length input \<Longrightarrow> input ! (skipToBrace input i) = CHR ''{''"
proof (induction input i rule: skipToBrace.induct)
  case (1 input index)
  show ?case
  proof (cases "index < length input \<and> input ! index \<noteq> CHR ''{''")
    case True
    then have eq: "skipToBrace input index = skipToBrace input (index + 1)"
      by (subst skipToBrace.simps) simp
    with "1.IH" "1.prems" True show ?thesis by simp
  next
    case False
    then have eq: "skipToBrace input index = index"
      by (subst skipToBrace.simps) auto
    with "1.prems" False show ?thesis by auto
  qed
qed

text \<open>The first brace from \<open>i\<close> on is the first brace from \<open>k\<close> on when none lies between.\<close>

lemma skipToBrace_skip:
  "i \<le> k \<Longrightarrow> k \<le> length input \<Longrightarrow> (\<forall>j. i \<le> j \<and> j < k \<longrightarrow> input ! j \<noteq> CHR ''{'') \<Longrightarrow>
   skipToBrace input i = skipToBrace input k"
proof (induction "k - i" arbitrary: i)
  case 0
  then show ?case by simp
next
  case (Suc n)
  then have "i < k" by simp
  with Suc.prems have "i < length input" "input ! i \<noteq> CHR ''{''" by auto
  then have "skipToBrace input i = skipToBrace input (i + 1)"
    by (subst skipToBrace.simps) simp
  moreover have "skipToBrace input (i + 1) = skipToBrace input k"
    using Suc.hyps(1) [of "i + 1"] Suc.hyps(2) Suc.prems \<open>i < k\<close> by auto
  ultimately show ?case by simp
qed


lemma braceDepth_Cons:
  "braceDepth (c # s) =
     (if c = CHR ''{'' then 1 else if c = CHR ''}'' then - 1 else 0) + braceDepth s"
  by (simp add: braceDepth_def)

lemma substring_step:
  "i < length input \<Longrightarrow> i \<le> j \<Longrightarrow>
   substring input i (j + 1) = input ! i # substring input (i + 1) (j + 1)"
proof -
  assume a: "i < length input" "i \<le> j"
  have "drop i input = input ! i # drop (Suc i) input"
    using a by (simp add: Cons_nth_drop_Suc)
  moreover have "j + 1 - i = Suc (j - i)" using a by simp
  ultimately show ?thesis by (simp add: substring_def)
qed

lemma findBlockEnd_block:
  "findBlockEnd input i c = (Some e, i') \<Longrightarrow> 1 \<le> c \<Longrightarrow>
   i \<le> e \<and> e < length input \<and> input ! e = CHR ''}'' \<and>
   c + braceDepth (substring input i (e + 1)) = 0 \<and>
   (\<forall>j. i \<le> j \<and> j < e \<longrightarrow> 0 < c + braceDepth (substring input i (j + 1)))"
proof (induction input i c rule: findBlockEnd.induct)
  case (1 input index braceCount)
  from "1.prems"(1) have lt: "index < length input"
    by (subst (asm) findBlockEnd.simps) (auto split: if_splits)
  have step: "\<And>j. index \<le> j \<Longrightarrow>
      braceDepth (substring input index (j + 1)) =
        (if input ! index = CHR ''{'' then 1 else if input ! index = CHR ''}'' then - 1 else 0)
        + braceDepth (substring input (index + 1) (j + 1))"
    using lt by (simp add: substring_step braceDepth_Cons del: One_nat_def)
  have here: "substring input index (index + 1) = [input ! index]"
    using lt by (simp add: substring_def take_Suc_conv_app_nth hd_drop_conv_nth
        Cons_nth_drop_Suc [symmetric])
  show ?case
  proof (cases "input ! index = CHR ''{''")
    case True
    with lt "1.prems" have r: "findBlockEnd input (index + 1) (braceCount + 1) = (Some e, i')"
      by (subst (asm) findBlockEnd.simps) simp
    from "1.IH"(1) [OF lt True r] "1.prems"(2)
    have ih: "index + 1 \<le> e" "e < length input" "input ! e = CHR ''}''"
      "braceCount + 1 + braceDepth (substring input (index + 1) (e + 1)) = 0"
      "\<forall>j. index + 1 \<le> j \<and> j < e \<longrightarrow>
         0 < braceCount + 1 + braceDepth (substring input (index + 1) (j + 1))"
      by simp_all
    have "\<forall>j. index \<le> j \<and> j < e \<longrightarrow> 0 < braceCount + braceDepth (substring input index (j + 1))"
    proof (intro allI impI)
      fix j assume j: "index \<le> j \<and> j < e"
      show "0 < braceCount + braceDepth (substring input index (j + 1))"
      proof (cases "j = index")
        case True
        with here \<open>input ! index = CHR ''{''\<close> "1.prems"(2) show ?thesis
          by (simp add: braceDepth_def)
      next
        case False
        with j ih(5) have "0 < braceCount + 1 + braceDepth (substring input (index + 1) (j + 1))"
          by simp
        with step [of j] j True show ?thesis by simp
      qed
    qed
    with ih step [of e] True show ?thesis by simp
  next
    case nb: False
    show ?thesis
    proof (cases "input ! index = CHR ''}''")
      case True
      show ?thesis
      proof (cases "braceCount - 1 = 0")
        case z: True
        with lt nb True "1.prems" have "e = index"
          by (subst (asm) findBlockEnd.simps) simp
        with lt True z here show ?thesis by (simp add: braceDepth_def)
      next
        case nz: False
        with lt nb True "1.prems"
        have r: "findBlockEnd input (index + 1) (braceCount - 1) = (Some e, i')"
          by (subst (asm) findBlockEnd.simps) simp
        from nz "1.prems"(2) have c1: "1 \<le> braceCount - 1" by simp
        from "1.IH"(2) [OF lt nb True nz r c1]
        have ih: "index + 1 \<le> e" "e < length input" "input ! e = CHR ''}''"
          "braceCount - 1 + braceDepth (substring input (index + 1) (e + 1)) = 0"
          "\<forall>j. index + 1 \<le> j \<and> j < e \<longrightarrow>
             0 < braceCount - 1 + braceDepth (substring input (index + 1) (j + 1))"
          by simp_all
        have "\<forall>j. index \<le> j \<and> j < e \<longrightarrow>
                0 < braceCount + braceDepth (substring input index (j + 1))"
        proof (intro allI impI)
          fix j assume j: "index \<le> j \<and> j < e"
          show "0 < braceCount + braceDepth (substring input index (j + 1))"
          proof (cases "j = index")
            case True
            with here \<open>input ! index = CHR ''}''\<close> c1 show ?thesis
              by (simp add: braceDepth_def)
          next
            case False
            with j ih(5)
            have "0 < braceCount - 1 + braceDepth (substring input (index + 1) (j + 1))"
              by simp
            with step [of j] j True nb show ?thesis by simp
          qed
        qed
        with ih step [of e] True nb show ?thesis by simp
      qed
    next
      case False
      with lt nb "1.prems" have r: "findBlockEnd input (index + 1) braceCount = (Some e, i')"
        by (subst (asm) findBlockEnd.simps) simp
      from "1.IH"(3) [OF lt nb False r] "1.prems"(2)
      have ih: "index + 1 \<le> e" "e < length input" "input ! e = CHR ''}''"
        "braceCount + braceDepth (substring input (index + 1) (e + 1)) = 0"
        "\<forall>j. index + 1 \<le> j \<and> j < e \<longrightarrow>
           0 < braceCount + braceDepth (substring input (index + 1) (j + 1))"
        by simp_all
      have "\<forall>j. index \<le> j \<and> j < e \<longrightarrow>
              0 < braceCount + braceDepth (substring input index (j + 1))"
      proof (intro allI impI)
        fix j assume j: "index \<le> j \<and> j < e"
        show "0 < braceCount + braceDepth (substring input index (j + 1))"
        proof (cases "j = index")
          case True
          with here nb False "1.prems"(2) show ?thesis
            by (simp add: braceDepth_def)
        next
          case False
          with j ih(5)
          have "0 < braceCount + braceDepth (substring input (index + 1) (j + 1))"
            by simp
          with step [of j] j nb \<open>input ! index \<noteq> CHR ''}''\<close> show ?thesis by simp
        qed
      qed
      with ih step [of e] False nb show ?thesis by simp
    qed
  qed
qed

lemma findBlockEnd_closesBlock:
  assumes "findBlockEnd input b 0 = (Some e, i')" "b < length input" "input ! b = CHR ''{''"
  shows "closesBlock input b e"
proof -
  from assms have r: "findBlockEnd input (b + 1) 1 = (Some e, i')"
    by (subst (asm) findBlockEnd.simps) simp
  from findBlockEnd_block [OF r]
  have ih: "b + 1 \<le> e" "e < length input" "input ! e = CHR ''}''"
    "1 + braceDepth (substring input (b + 1) (e + 1)) = 0"
    "\<forall>j. b + 1 \<le> j \<and> j < e \<longrightarrow> 0 < 1 + braceDepth (substring input (b + 1) (j + 1))"
    by simp_all
  have step: "\<And>j. b \<le> j \<Longrightarrow>
      braceDepth (substring input b (j + 1)) = 1 + braceDepth (substring input (b + 1) (j + 1))"
    using assms(2,3) by (simp add: substring_step braceDepth_Cons del: One_nat_def)
  have "0 < braceDepth (substring input b (j + 1))" if "b \<le> j" "j < e" for j
  proof (cases "j = b")
    case True
    have "substring input b (b + 1) = [input ! b]"
      using assms(2) by (simp add: substring_def take_Suc_conv_app_nth hd_drop_conv_nth
        Cons_nth_drop_Suc [symmetric])
    with True assms(3) show ?thesis by (simp add: braceDepth_def)
  next
    case False
    with that ih(5) have "0 < 1 + braceDepth (substring input (b + 1) (j + 1))" by simp
    with step [of j] that show ?thesis by simp
  qed
  then have "list_all (\<lambda>j. 0 < braceDepth (substring input b (j + 1))) [b..<e]"
    by (simp add: list_all_iff)
  with ih step [of e] show ?thesis by (simp add: closesBlock_def)
qed


lemma is_space_not_brace: "is_space c \<Longrightarrow> c \<noteq> CHR ''{''"
  by (auto simp: is_space_def)

lemma is_ident_not_brace: "is_ident c \<Longrightarrow> c \<noteq> CHR ''{''"
  by (auto simp: is_ident_def)

lemma startsWith_nth:
  "startsWith input kw s \<Longrightarrow> s \<le> j \<Longrightarrow> j < s + length kw \<Longrightarrow> input ! j = kw ! (j - s)"
proof -
  assume a: "startsWith input kw s" "s \<le> j" "j < s + length kw"
  then have t: "take (length kw) (drop s input) = kw" by (simp add: startsWith_def)
  then have "length (take (length kw) (drop s input)) = length kw" by simp
  then have "length kw \<le> length input - s" by simp
  with a have "s + (j - s) < length input" by simp
  have "kw ! (j - s) = take (length kw) (drop s input) ! (j - s)" using t by simp
  also have "\<dots> = drop s input ! (j - s)" using a by simp
  also have "\<dots> = input ! (s + (j - s))"
    using \<open>s + (j - s) < length input\<close> by (simp add: nth_drop)
  finally show ?thesis using a by simp
qed

lemma keyword_no_brace: "k < length (keyword t) \<Longrightarrow> keyword t ! k \<noteq> CHR ''{''"
proof -
  assume "k < length (keyword t)"
  then have "keyword t ! k \<in> set (keyword t)" by simp
  then show ?thesis by (cases t) (auto simp: keyword_def)
qed

text \<open>From the keyword to the end of the name no opening brace occurs.\<close>

lemma header_first_brace:
  assumes kw: "startsWith input (keyword t) s"
    and i1: "index1 = skipWhitespace input (s + length (keyword t))"
    and nm: "name = takeWhile is_ident (drop index1 input)" "name \<noteq> []"
  shows "skipToBrace input s = skipToBrace input (index1 + length name)"
proof (rule skipToBrace_skip)
  have le1: "s + length (keyword t) \<le> index1" using i1 by (simp add: skipWhitespace_ge)
  then show "s \<le> index1 + length name" by simp
  have "length name \<le> length (drop index1 input)"
    unfolding nm(1) by (rule length_takeWhile_le)
  moreover have "index1 < length input"
  proof (rule ccontr)
    assume "\<not> index1 < length input"
    then have "drop index1 input = []" by simp
    with nm show False by simp
  qed
  ultimately show "index1 + length name \<le> length input" by simp
  show "\<forall>j. s \<le> j \<and> j < index1 + length name \<longrightarrow> input ! j \<noteq> CHR ''{''"
  proof (intro allI impI)
    fix j assume j: "s \<le> j \<and> j < index1 + length name"
    consider "j < s + length (keyword t)" | "s + length (keyword t) \<le> j" "j < index1"
      | "index1 \<le> j" by linarith
    then show "input ! j \<noteq> CHR ''{''"
    proof cases
      case 1
      with kw j have "input ! j = keyword t ! (j - s)" by (simp add: startsWith_nth)
      moreover from 1 j have "j - s < length (keyword t)" by linarith
      ultimately show ?thesis by (simp add: keyword_no_brace)
    next
      case 2
      then have "is_space (input ! j)" unfolding i1 by (rule skipWhitespace_spaces)
      then show ?thesis by (rule is_space_not_brace)
    next
      case 3
      with j have k: "j - index1 < length name" by linarith
      have "name ! (j - index1) = drop index1 input ! (j - index1)"
        using k unfolding nm(1) by (rule takeWhile_nth)
      also have "\<dots> = input ! j"
        using 3 \<open>index1 < length input\<close> by (simp add: nth_drop)
      finally have "input ! j = name ! (j - index1)" by simp
      moreover have "name ! (j - index1) \<in> set name" using k by simp
      then have "is_ident (name ! (j - index1))"
        unfolding nm(1) by (rule set_takeWhileD [THEN conjunct2])
      ultimately show ?thesis by (simp add: is_ident_not_brace)
    qed
  qed
qed

lemma parseLoop_spans:
  "parseLoop input i ds = Inr out \<Longrightarrow>
   \<exists>spans new. out = ds @ new \<and> list_all2 (definitionAt input) spans new \<and>
     (\<forall>sp \<in> set spans. i \<le> fst sp) \<and> sorted_wrt (\<lambda>sp sp'. snd sp < fst sp') spans"
proof (induction "length input - i" arbitrary: i ds rule: less_induct)
  case less
  note run = less.prems
  let ?done = "\<exists>spans new. out = ds @ new \<and> list_all2 (definitionAt input) spans new \<and>
     (\<forall>sp \<in> set spans. i \<le> fst sp) \<and> sorted_wrt (\<lambda>sp sp'. snd sp < fst sp') spans"
  have stop: "out = ds \<Longrightarrow> ?done"
    by (rule exI [of _ "[]"], rule exI [of _ "[]"]) simp
  show ?case
  proof (cases "i < length input")
    case False
    with run have "out = ds" by (subst (asm) parseLoop.simps) simp
    then show ?thesis by (rule stop)
  next
    case lt: True
    define index where "index = skipWhitespace input i"
    have ge: "i \<le> index" by (simp add: index_def skipWhitespace_ge)
    show ?thesis
    proof (cases "index \<ge> length input")
      case True
      with lt run have "out = ds"
        by (subst (asm) parseLoop.simps) (simp add: index_def Let_def)
      then show ?thesis by (rule stop)
    next
      case inside: False
      show ?thesis
      proof (cases "startsWith input ''query'' index \<or> startsWith input ''fragment'' index")
        case False
        with lt inside run have r: "parseLoop input (index + 1) ds = Inr out"
          by (subst (asm) parseLoop.simps) (simp add: index_def Let_def)
        from inside ge lt have "length input - (index + 1) < length input - i" by simp
        from less.hyps [OF this r] obtain spans new where
          "out = ds @ new" "list_all2 (definitionAt input) spans new"
          "\<forall>sp \<in> set spans. index + 1 \<le> fst sp" "sorted_wrt (\<lambda>sp sp'. snd sp < fst sp') spans"
          by blast
        with ge show ?thesis by (intro exI [of _ spans] exI [of _ new]) auto
      next
        case kw: True
        define t where "t = (if startsWith input ''query'' index then Query else Fragment)"
        define index1 where "index1 = skipWhitespace input (index + length (keyword t))"
        define name where "name = takeWhile is_ident (drop index1 input)"
        define index2 where "index2 = skipToBrace input (index1 + length name)"
        have kwt: "startsWith input (keyword t) index"
          using kw by (auto simp: t_def keyword_def)
        from run have body:
          "(if name = [] then Inl (CouldNotParseName index1)
            else if index2 \<ge> length input then Inr ds
            else (case findBlockEnd input index2 0 of
                    (None, _) \<Rightarrow> Inl (NoMatchingBrace name)
                  | (Some endBlockIndex, index3) \<Rightarrow>
                      parseLoop input index3
                        (ds @ [\<lparr>filename = computeFilename t name,
                                content = substring input index (endBlockIndex + 1), type = t\<rparr>])))
           = Inr out"
          unfolding index2_def name_def index1_def t_def index_def
          by (subst (asm) parseLoop.simps)
            (simp only: Let_def lt if_True if_False inside [unfolded index_def]
              kw [unfolded index_def])
        then have nm: "name \<noteq> []" by (auto split: if_splits)
        show ?thesis
        proof (cases "index2 \<ge> length input")
          case True
          with body nm have "out = ds" by simp
          then show ?thesis by (rule stop)
        next
          case b: False
          obtain r index3 where fb: "findBlockEnd input index2 0 = (r, index3)"
            by (cases "findBlockEnd input index2 0")
          with body nm b obtain e where re: "r = Some e"
            by (cases r) auto
          define d where "d = \<lparr>filename = computeFilename t name,
                                content = substring input index (e + 1), type = t\<rparr>"
          from body nm b fb re have rec: "parseLoop input index3 (ds @ [d]) = Inr out"
            by (simp add: d_def)
          have first: "skipToBrace input index = index2"
            unfolding index2_def
            by (rule header_first_brace [OF kwt index1_def name_def nm])
          have at: "input ! index2 = CHR ''{''"
            using b unfolding index2_def by (simp add: skipToBrace_at)
          from fb re have fb': "findBlockEnd input index2 0 = (Some e, index3)" by simp
          from b have b': "index2 < length input" by simp
          have blk: "closesBlock input index2 e"
            by (rule findBlockEnd_closesBlock [OF fb' b' at])
          have i3: "index2 \<le> e" "index3 = e + 1"
            using findBlockEnd_gt [OF fb'] by simp_all
          have le2: "index \<le> index2"
            using skipToBrace_ge [of index input] first by simp
          have dat: "definitionAt input (index, e) d"
            using kwt nm blk first
            by (simp add: definitionAt_def d_def Let_def index1_def [symmetric]
                name_def [symmetric])
          from blk have "e < length input" by (simp add: closesBlock_def)
          with i3 le2 ge have "length input - index3 < length input - i" by simp
          from less.hyps [OF this rec] obtain spans new where sn:
            "out = (ds @ [d]) @ new" "list_all2 (definitionAt input) spans new"
            "\<forall>sp \<in> set spans. index3 \<le> fst sp" "sorted_wrt (\<lambda>sp sp'. snd sp < fst sp') spans"
            by blast
          show ?thesis
          proof (intro exI [of _ "(index, e) # spans"] exI [of _ "d # new"] conjI)
            show "out = ds @ d # new" using sn(1) by simp
            show "list_all2 (definitionAt input) ((index, e) # spans) (d # new)"
              using dat sn(2) by simp
            show "\<forall>sp \<in> set ((index, e) # spans). i \<le> fst sp"
              using sn(3) i3 le2 ge by auto
            show "sorted_wrt (\<lambda>sp sp'. snd sp < fst sp') ((index, e) # spans)"
              using sn(3,4) i3 by auto
          qed
        qed
      qed
    qed
  qed
qed


lemma skipToBrace_none:
  assumes "CHR ''{'' \<notin> set (drop k input)"
  shows "length input \<le> skipToBrace input k"
proof (rule ccontr)
  assume "\<not> length input \<le> skipToBrace input k"
  then have lt: "skipToBrace input k < length input" by simp
  then have "input ! skipToBrace input k = CHR ''{''" by (rule skipToBrace_at)
  moreover have "k \<le> skipToBrace input k" by (rule skipToBrace_ge)
  ultimately have "CHR ''{'' \<in> set (drop k input)"
    using lt by (auto simp: in_set_conv_nth nth_drop intro!: exI [of _ "skipToBrace input k - k"])
  with assms show False by simp
qed

text \<open>
  C8. Every definition the splitter emits has as content the exact substring of the input
  from the start offset of its keyword through the closing brace that first returns the
  depth counter to zero (inclusive); its filename is computed from the identifier after
  the keyword; and the definitions are emitted in source order (their spans follow one
  another without overlap). Scenario 2: \<open>"query A{f} fragment B_x on T{g}"\<close> yields exactly
  the query \<open>A\<close> with content \<open>"query A{f}"\<close> and the fragment \<open>B_x\<close> with content
  \<open>"fragment B_x on T{g}"\<close>.
\<close>

theorem splitter_content_exact:
  assumes "parseGraphQLDefinitions input = Inr defs"
  shows "(\<exists>spans. list_all2 (definitionAt input) spans defs \<and>
            sorted_wrt (\<lambda>sp sp'. snd sp < fst sp') spans) \<and>
         parseGraphQLDefinitions ''query A{f} fragment B_x on T{g}'' =
           Inr [\<lparr>filename = ''A.js'', content = ''query A{f}'', type = Query\<rparr>,
                \<lparr>filename = ''B.js'', content = ''fragment B_x on T{g}'', type = Fragment\<rparr>]"
proof
  from assms have "parseLoop input 0 [] = Inr defs" by (simp add: parseGraphQLDefinitions_def)
  from parseLoop_spans [OF this] show "\<exists>spans. list_all2 (definitionAt input) spans defs \<and>
            sorted_wrt (\<lambda>sp sp'. snd sp < fst sp') spans" by auto
next
  show "parseGraphQLDefinitions ''query A{f} fragment B_x on T{g}'' =
           Inr [\<lparr>filename = ''A.js'', content = ''query A{f}'', type = Query\<rparr>,
                \<lparr>filename = ''B.js'', content = ''fragment B_x on T{g}'', type = Fragment\<rparr>]"
    by code_simp
qed

theorem splitter_content_exact_witness:
  "parseGraphQLDefinitions ''xx queryA } {f{}} } fragment B_x on T{g}'' =
     Inr [\<lparr>filename = ''A.js'', content = ''queryA } {f{}}'', type = Query\<rparr>,
          \<lparr>filename = ''B.js'', content = ''fragment B_x on T{g}'', type = Fragment\<rparr>] \<and>
   (\<exists>spans. list_all2 (definitionAt ''xx queryA } {f{}} } fragment B_x on T{g}'') spans
       [\<lparr>filename = ''A.js'', content = ''queryA } {f{}}'', type = Query\<rparr>,
        \<lparr>filename = ''B.js'', content = ''fragment B_x on T{g}'', type = Fragment\<rparr>] \<and>
      sorted_wrt (\<lambda>sp sp'. snd sp < fst sp') spans)"
proof -
  have h: "parseGraphQLDefinitions ''xx queryA } {f{}} } fragment B_x on T{g}'' =
     Inr [\<lparr>filename = ''A.js'', content = ''queryA } {f{}}'', type = Query\<rparr>,
          \<lparr>filename = ''B.js'', content = ''fragment B_x on T{g}'', type = Fragment\<rparr>]"
    by code_simp
  from splitter_content_exact [OF h] h show ?thesis by blast
qed

subsection \<open>A truncated definition at the end of the input\<close>

lemma parseLoop_truncated:
  assumes "index0 < length input"
    and "index = skipWhitespace input index0"
    and "startsWith input ''query'' index \<or> startsWith input ''fragment'' index"
    and "t = (if startsWith input ''query'' index then Query else Fragment)"
    and "index1 = skipWhitespace input (index + length (keyword t))"
    and "name = takeWhile is_ident (drop index1 input)"
    and "name \<noteq> []"
    and "CHR ''{'' \<notin> set (drop (index1 + length name) input)"
  shows "parseLoop input index0 definitions = Inr definitions"
proof -
  have none: "length input \<le> skipToBrace input (index1 + length name)"
    using assms(8) by (rule skipToBrace_none)
  show ?thesis
  proof (cases "length input \<le> index")
    case True
    then show ?thesis
      by (subst parseLoop.simps)
        (simp only: Let_def assms(1) if_True assms(2) [symmetric])
  next
    case False
    show ?thesis
      using none assms(7)
      unfolding assms(6) assms(5) assms(4) assms(2)
      by (subst parseLoop.simps)
        (simp only: Let_def assms(1) if_True if_False False [unfolded assms(2)]
          assms(3) [unfolded assms(2)])
  qed
qed

text \<open>One turn of the loop, case by case.\<close>

lemma parseLoop_end: "\<not> i < length input \<Longrightarrow> parseLoop input i ds = Inr ds"
  by (subst parseLoop.simps) simp

lemma parseLoop_blank:
  "i < length input \<Longrightarrow> length input \<le> skipWhitespace input i \<Longrightarrow> parseLoop input i ds = Inr ds"
  by (subst parseLoop.simps) (simp add: Let_def)

lemma parseLoop_other:
  assumes "i < length input" "index = skipWhitespace input i" "index < length input"
    "\<not> startsWith input ''query'' index" "\<not> startsWith input ''fragment'' index"
  shows "parseLoop input i ds = parseLoop input (index + 1) ds"
  using assms by (subst parseLoop.simps) (simp add: Let_def)

lemma parseLoop_keyword:
  assumes "i < length input" "index = skipWhitespace input i" "index < length input"
    "startsWith input ''query'' index \<or> startsWith input ''fragment'' index"
    "t = (if startsWith input ''query'' index then Query else Fragment)"
    "index1 = skipWhitespace input (index + length (keyword t))"
    "name = takeWhile is_ident (drop index1 input)"
    "index2 = skipToBrace input (index1 + length name)"
  shows "parseLoop input i ds =
     (if name = [] then Inl (CouldNotParseName index1)
      else if index2 \<ge> length input then Inr ds
      else (case findBlockEnd input index2 0 of
              (None, _) \<Rightarrow> Inl (NoMatchingBrace name)
            | (Some endBlockIndex, index3) \<Rightarrow>
                parseLoop input index3
                  (ds @ [\<lparr>filename = computeFilename t name,
                          content = substring input index (endBlockIndex + 1), type = t\<rparr>])))"
proof -
  have lt: "\<not> length input \<le> skipWhitespace input i" using assms(2,3) by simp
  show ?thesis
    unfolding assms(8) assms(7) assms(6) assms(5) assms(2)
    by (subst parseLoop.simps)
      (simp only: Let_def assms(1) if_True if_False lt assms(4) [unfolded assms(2)])
qed

text \<open>The scanning loops read the same characters in a text and in its extensions.\<close>

lemma skipWhitespace_step:
  "i < length input \<Longrightarrow> is_space (input ! i) \<Longrightarrow>
   skipWhitespace input i = skipWhitespace input (i + 1)"
  by (subst skipWhitespace.simps) simp

lemma skipWhitespace_stop:
  "\<not> (i < length input \<and> is_space (input ! i)) \<Longrightarrow> skipWhitespace input i = i"
  by (subst skipWhitespace.simps) auto

lemma skipToBrace_step:
  "i < length input \<Longrightarrow> input ! i \<noteq> CHR ''{'' \<Longrightarrow>
   skipToBrace input i = skipToBrace input (i + 1)"
  by (subst skipToBrace.simps) simp

lemma skipToBrace_stop:
  "\<not> (i < length input \<and> input ! i \<noteq> CHR ''{'') \<Longrightarrow> skipToBrace input i = i"
  by (subst skipToBrace.simps) auto

lemma skipWhitespace_le_length: "i \<le> length input \<Longrightarrow> skipWhitespace input i \<le> length input"
proof (induction input i rule: skipWhitespace.induct)
  case (1 input index)
  then show ?case by (subst skipWhitespace.simps) auto
qed

lemma skipWhitespace_append_less:
  "skipWhitespace pre i < length pre \<Longrightarrow> skipWhitespace (pre @ r) i = skipWhitespace pre i"
proof (induction pre i rule: skipWhitespace.induct)
  case (1 input index)
  from "1.prems" skipWhitespace_ge [of index input] have lt: "index < length input" by simp
  show ?case
  proof (cases "is_space (input ! index)")
    case True
    with lt have e: "skipWhitespace input index = skipWhitespace input (index + 1)"
      by (simp add: skipWhitespace_step)
    from True lt have "skipWhitespace (input @ r) index = skipWhitespace (input @ r) (index + 1)"
      by (intro skipWhitespace_step) (simp_all add: nth_append)
    with "1.IH" "1.prems" e lt True show ?thesis by simp
  next
    case False
    then have "skipWhitespace input index = index" by (simp add: skipWhitespace_stop)
    moreover from False lt have "skipWhitespace (input @ r) index = index"
      by (intro skipWhitespace_stop) (simp add: nth_append)
    ultimately show ?thesis by simp
  qed
qed

lemma skipWhitespace_append_end:
  "i \<le> length pre \<Longrightarrow> length pre \<le> skipWhitespace pre i \<Longrightarrow> r \<noteq> [] \<Longrightarrow> \<not> is_space (hd r) \<Longrightarrow>
   skipWhitespace (pre @ r) i = length pre"
proof (induction pre i rule: skipWhitespace.induct)
  case (1 input index)
  show ?case
  proof (cases "index < length input")
    case False
    with "1.prems" have "index = length input" by simp
    with "1.prems" show ?thesis
      by (intro trans [OF skipWhitespace_stop]) (simp_all add: nth_append hd_conv_nth)
  next
    case lt: True
    have sp: "is_space (input ! index)"
    proof (rule ccontr)
      assume "\<not> is_space (input ! index)"
      then have "skipWhitespace input index = index" by (simp add: skipWhitespace_stop)
      with "1.prems" lt show False by simp
    qed
    with lt have e: "skipWhitespace input index = skipWhitespace input (index + 1)"
      by (simp add: skipWhitespace_step)
    from sp lt have "skipWhitespace (input @ r) index = skipWhitespace (input @ r) (index + 1)"
      by (intro skipWhitespace_step) (simp_all add: nth_append)
    with "1.IH" "1.prems" e lt sp show ?thesis by simp
  qed
qed

lemma skipWhitespace_run:
  "list_all is_space ws \<Longrightarrow> rest = [] \<or> \<not> is_space (hd rest) \<Longrightarrow>
   skipWhitespace (a @ ws @ rest) (length a) = length a + length ws"
proof (induction ws arbitrary: a)
  case Nil
  then show ?case
    by (intro trans [OF skipWhitespace_stop]) (auto simp: nth_append hd_conv_nth)
next
  case (Cons w ws)
  from Cons.prems have "is_space w" "list_all is_space ws" by simp_all
  have "skipWhitespace (a @ (w # ws) @ rest) (length a) =
      skipWhitespace (a @ (w # ws) @ rest) (length a + 1)"
    using \<open>is_space w\<close> by (intro skipWhitespace_step) (simp_all add: nth_append)
  with Cons.IH [OF \<open>list_all is_space ws\<close> Cons.prems(2), of "a @ [w]"]
  show ?case by simp
qed

lemma skipToBrace_append_less:
  "skipToBrace pre i < length pre \<Longrightarrow> skipToBrace (pre @ r) i = skipToBrace pre i"
proof (induction pre i rule: skipToBrace.induct)
  case (1 input index)
  from "1.prems" skipToBrace_ge [of index input] have lt: "index < length input" by simp
  show ?case
  proof (cases "input ! index \<noteq> CHR ''{''")
    case True
    with lt have e: "skipToBrace input index = skipToBrace input (index + 1)"
      by (simp add: skipToBrace_step)
    from True lt have "skipToBrace (input @ r) index = skipToBrace (input @ r) (index + 1)"
      by (intro skipToBrace_step) (simp_all add: nth_append)
    with "1.IH" "1.prems" e lt True show ?thesis by simp
  next
    case False
    then have "skipToBrace input index = index" by (simp add: skipToBrace_stop)
    moreover from False lt have "skipToBrace (input @ r) index = index"
      by (intro skipToBrace_stop) (simp add: nth_append)
    ultimately show ?thesis by simp
  qed
qed

lemma skipToBrace_append_none:
  assumes "length pre \<le> skipToBrace pre i" "CHR ''{'' \<notin> set r"
  shows "length (pre @ r) \<le> skipToBrace (pre @ r) i"
proof (rule skipToBrace_none)
  have "CHR ''{'' \<notin> set (drop i pre)"
  proof
    assume "CHR ''{'' \<in> set (drop i pre)"
    then obtain k where k: "k < length (drop i pre)" "drop i pre ! k = CHR ''{''"
      by (auto simp: in_set_conv_nth)
    then have "pre ! (i + k) = CHR ''{''" "i + k < length pre" by simp_all
    moreover from this assms(1) have "pre ! (i + k) \<noteq> CHR ''{''"
      by (intro skipToBrace_no_brace [of i]) simp_all
    ultimately show False by simp
  qed
  with assms(2) show "CHR ''{'' \<notin> set (drop i (pre @ r))"
    by (auto dest: in_set_dropD)
qed

lemma findBlockEnd_append:
  "findBlockEnd pre i c = (Some e, i') \<Longrightarrow> findBlockEnd (pre @ r) i c = (Some e, i')"
proof (induction pre i c rule: findBlockEnd.induct)
  case (1 input index braceCount)
  from "1.prems" have lt: "index < length input"
    by (subst (asm) findBlockEnd.simps) (auto split: if_splits)
  then have nth: "(input @ r) ! index = input ! index" "index < length (input @ r)"
    by (simp_all add: nth_append)
  show ?case
  proof (cases "input ! index = CHR ''{''")
    case True
    with lt "1.prems" have "findBlockEnd input (index + 1) (braceCount + 1) = (Some e, i')"
      by (subst (asm) findBlockEnd.simps) simp
    from "1.IH"(1) [OF lt True this] True nth show ?thesis
      by (subst findBlockEnd.simps) simp
  next
    case nb: False
    show ?thesis
    proof (cases "input ! index = CHR ''}''")
      case True
      show ?thesis
      proof (cases "braceCount - 1 = 0")
        case z: True
        with lt nb True "1.prems" have "(Some index, index + 1) = (Some e, i')"
          by (subst (asm) findBlockEnd.simps) simp
        with z nb True nth show ?thesis by (subst findBlockEnd.simps) simp
      next
        case nz: False
        with lt nb True "1.prems" have "findBlockEnd input (index + 1) (braceCount - 1) = (Some e, i')"
          by (subst (asm) findBlockEnd.simps) simp
        from "1.IH"(2) [OF lt nb True nz this] nz nb True nth show ?thesis
          by (subst findBlockEnd.simps) simp
      qed
    next
      case False
      with lt nb "1.prems" have "findBlockEnd input (index + 1) braceCount = (Some e, i')"
        by (subst (asm) findBlockEnd.simps) simp
      from "1.IH"(3) [OF lt nb False this] nb False nth show ?thesis
        by (subst findBlockEnd.simps) simp
    qed
  qed
qed

lemma startsWith_length: "startsWith input kw i \<Longrightarrow> i + length kw \<le> length input \<or> kw = []"
proof (cases "kw = []")
  case False
  assume "startsWith input kw i"
  then have "length (take (length kw) (drop i input)) = length kw"
    by (simp add: startsWith_def)
  then have "length kw \<le> length input - i" by simp
  with False show ?thesis by (cases kw) auto
qed simp

lemma startsWith_append: "startsWith pre kw i \<Longrightarrow> startsWith (pre @ r) kw i"
  using startsWith_length [of pre kw i] by (auto simp: startsWith_def)

lemma startsWith_inside:
  "i + length kw \<le> length pre \<Longrightarrow> startsWith (pre @ r) kw i \<longleftrightarrow> startsWith pre kw i"
  by (simp add: startsWith_def)

lemma keyword_tail_chars:
  assumes "0 < k" "k < length (keyword t)"
  shows "keyword t ! k \<noteq> CHR ''q'' \<and> keyword t ! k \<noteq> CHR ''f''"
proof -
  from assms have "tl (keyword t) ! (k - 1) = keyword t ! k" "k - 1 < length (tl (keyword t))"
    by (simp_all add: nth_tl)
  then have "keyword t ! k \<in> set (tl (keyword t))" by (metis nth_mem)
  then show ?thesis by (cases t) (auto simp: keyword_def)
qed

text \<open>A keyword does not start in a text and end in a keyword appended to it.\<close>

lemma startsWith_no_straddle:
  assumes "startsWith (pre @ r) (keyword t) i" and "i < length pre"
    and "r \<noteq> []" and "hd r = CHR ''q'' \<or> hd r = CHR ''f''"
  shows "startsWith pre (keyword t) i"
proof (cases "i + length (keyword t) \<le> length pre")
  case True
  with assms(1) show ?thesis by (simp add: startsWith_inside)
next
  case False
  with assms(2) have "length pre - i < length (keyword t)" "0 < length pre - i" by simp_all
  from keyword_tail_chars [OF this(2) this(1)]
  have "keyword t ! (length pre - i) \<noteq> CHR ''q'' \<and> keyword t ! (length pre - i) \<noteq> CHR ''f''" .
  moreover have "(pre @ r) ! length pre = keyword t ! (length pre - i)"
    using assms(2) False by (intro startsWith_nth [OF assms(1)]) simp_all
  moreover have "(pre @ r) ! length pre = hd r"
    using assms(3) by (simp add: nth_append hd_conv_nth)
  ultimately show ?thesis using assms(4) by simp
qed

lemma is_ident_not_space: "is_ident c \<Longrightarrow> \<not> is_space c"
  by (auto simp: is_ident_def is_space_def Let_def)

lemma keyword_simps:
  "keyword Query = ''query''" "keyword Fragment = ''fragment''"
  by (simp_all add: keyword_def)

text \<open>
  A text \<open>r\<close> that starts with a definition keyword, white space and a name and holds no
  opening brace, appended to a text that the splitter accepts, adds nothing to the result.
\<close>

lemma parseLoop_append_truncated:
  assumes r: "r = keyword t0 @ ws @ nm0 @ tail"
    and ws: "list_all is_space ws"
    and nm0: "nm0 \<noteq> []" "list_all is_ident nm0"
    and nb: "CHR ''{'' \<notin> set r"
  shows "i \<le> length pre \<Longrightarrow> parseLoop pre i ds = Inr out \<Longrightarrow> parseLoop (pre @ r) i ds = Inr out"
proof (induction "length pre - i" arbitrary: i ds rule: less_induct)
  case less
  note le = less.prems(1) and run = less.prems(2)
  let ?I = "pre @ r"
  let ?n = "length pre"
  have k0: "keyword t0 \<noteq> []" by (cases t0) (simp_all add: keyword_simps)
  with r have rne: "r \<noteq> []" by simp
  from r k0 have hdr: "hd r = hd (keyword t0)" by simp
  then have qf: "hd r = CHR ''q'' \<or> hd r = CHR ''f''" by (cases t0) (simp_all add: keyword_simps)
  then have nsp: "\<not> is_space (hd r)" by (auto simp: is_space_def)
  have atn: "?I ! ?n = hd r" using rne by (simp add: nth_append hd_conv_nth)
  have kwn: "startsWith ?I (keyword t0) ?n" by (simp add: startsWith_def r)
  have idn: "is_ident (hd nm0)" using nm0 by (cases nm0) simp_all
  have brace: "\<And>k. ?n \<le> k \<Longrightarrow> CHR ''{'' \<notin> set (drop k ?I)"
    using nb by (auto dest: in_set_dropD)
  have trunc: "parseLoop ?I j d = Inr d" if j: "j < length ?I" "skipWhitespace ?I j = ?n" for j d
  proof (rule parseLoop_truncated [OF j(1) j(2) [symmetric] _ refl refl refl])
    show kw: "startsWith ?I ''query'' ?n \<or> startsWith ?I ''fragment'' ?n"
      using kwn by (cases t0) (simp_all add: keyword_simps)
    have t: "(if startsWith ?I ''query'' ?n then Query else Fragment) = t0"
    proof (cases t0)
      case Query
      with kwn show ?thesis by (simp add: keyword_simps)
    next
      case Fragment
      with hdr atn have "?I ! ?n = CHR ''f''" by (simp add: keyword_simps)
      moreover have "?I ! ?n = CHR ''q''" if "startsWith ?I ''query'' ?n"
        using startsWith_nth [OF that, of ?n] by simp
      ultimately show ?thesis using Fragment by auto
    qed
    have "skipWhitespace ((pre @ keyword t0) @ ws @ (nm0 @ tail)) (length (pre @ keyword t0)) =
        length (pre @ keyword t0) + length ws"
      using nm0(1) idn by (intro skipWhitespace_run [OF ws]) (simp add: is_ident_not_space)
    then have i1: "skipWhitespace ?I (?n + length (keyword t0)) = ?n + length (keyword t0) + length ws"
      by (simp add: r)
    have d: "drop (?n + length (keyword t0) + length ws) ?I = nm0 @ tail" by (simp add: r)
    have "takeWhile is_ident (nm0 @ tail) \<noteq> []"
      using nm0(1) idn by (cases nm0) simp_all
    then show "takeWhile is_ident
        (drop (skipWhitespace ?I
           (?n + length (keyword (if startsWith ?I ''query'' ?n then Query else Fragment)))) ?I) \<noteq> []"
      unfolding t i1 d .
    show "CHR ''{'' \<notin> set (drop
        (skipWhitespace ?I
           (?n + length (keyword (if startsWith ?I ''query'' ?n then Query else Fragment))) +
         length (takeWhile is_ident
           (drop (skipWhitespace ?I
             (?n + length (keyword (if startsWith ?I ''query'' ?n then Query else Fragment)))) ?I))) ?I)"
      by (rule brace) (simp add: t i1)
  qed
  show ?case
  proof (cases "i < ?n")
    case False
    with le have i: "i = ?n" by simp
    from False run have "out = ds" by (simp add: parseLoop_end)
    moreover have "skipWhitespace ?I ?n = ?n"
      using nsp atn by (intro skipWhitespace_stop) simp
    ultimately show ?thesis using trunc [of ?n ds] rne i by simp
  next
    case lt: True
    then have ltI: "i < length ?I" by simp
    define index where "index = skipWhitespace pre i"
    have ge: "i \<le> index" by (simp add: index_def skipWhitespace_ge)
    show ?thesis
    proof (cases "?n \<le> index")
      case True
      with lt run have "out = ds" by (simp add: parseLoop_blank index_def)
      moreover have "skipWhitespace ?I i = ?n"
        using le True rne nsp unfolding index_def by (rule skipWhitespace_append_end)
      ultimately show ?thesis using trunc [OF ltI] by simp
    next
      case inside: False
      then have inI: "index < length ?I" by simp
      have idx: "index = skipWhitespace ?I i"
        using inside by (simp add: index_def skipWhitespace_append_less)
      show ?thesis
      proof (cases "startsWith pre ''query'' index \<or> startsWith pre ''fragment'' index")
        case False
        have nq: "\<not> startsWith ?I ''query'' index"
          using startsWith_no_straddle [of pre r Query index] False inside rne qf
          by (auto simp: keyword_simps)
        have nf: "\<not> startsWith ?I ''fragment'' index"
          using startsWith_no_straddle [of pre r Fragment index] False inside rne qf
          by (auto simp: keyword_simps)
        from False inside have "parseLoop pre i ds = parseLoop pre (index + 1) ds"
          by (intro parseLoop_other [OF lt index_def]) simp_all
        with run have rec: "parseLoop pre (index + 1) ds = Inr out" by simp
        from inside ge have "length pre - (index + 1) < length pre - i" "index + 1 \<le> ?n"
          by simp_all
        from less.hyps [OF this rec] have "parseLoop ?I (index + 1) ds = Inr out" .
        moreover have "parseLoop ?I i ds = parseLoop ?I (index + 1) ds"
          by (rule parseLoop_other [OF ltI idx inI nq nf])
        ultimately show ?thesis by simp
      next
        case kw: True
        define t where "t = (if startsWith pre ''query'' index then Query else Fragment)"
        define index1 where "index1 = skipWhitespace pre (index + length (keyword t))"
        define name where "name = takeWhile is_ident (drop index1 pre)"
        define index2 where "index2 = skipToBrace pre (index1 + length name)"
        note body = parseLoop_keyword [OF lt index_def _ kw t_def index1_def name_def index2_def,
            of ds]
        from inside have in': "index < ?n" by simp
        from run body [OF in'] have nm: "name \<noteq> []" by (auto split: if_splits)
        have i1: "index1 < ?n"
        proof (rule ccontr)
          assume "\<not> index1 < ?n"
          then have "name = []" by (simp add: name_def)
          with nm show False by simp
        qed
        have kwI: "startsWith ?I ''query'' index \<or> startsWith ?I ''fragment'' index"
          using kw by (auto intro: startsWith_append)
        have tI: "t = (if startsWith ?I ''query'' index then Query else Fragment)"
        proof (cases "startsWith pre ''query'' index")
          case True
          then show ?thesis by (simp add: t_def startsWith_append)
        next
          case False
          then have "\<not> startsWith ?I ''query'' index"
            using startsWith_no_straddle [of pre r Query index] in' rne qf
            by (auto simp: keyword_simps)
          with False show ?thesis by (simp add: t_def)
        qed
        have i1I: "index1 = skipWhitespace ?I (index + length (keyword t))"
          using i1 by (simp add: index1_def skipWhitespace_append_less)
        define nameI where "nameI = takeWhile is_ident (drop index1 ?I)"
        define index2I where "index2I = skipToBrace ?I (index1 + length nameI)"
        note bodyI = parseLoop_keyword [OF ltI idx inI kwI tI i1I nameI_def index2I_def, of ds]
        have dI: "drop index1 ?I = drop index1 pre @ r" using i1 by simp
        have nmle: "index1 + length name \<le> ?n"
          using length_takeWhile_le [of is_ident "drop index1 pre"] i1 by (simp add: name_def)
        have nmI: "nameI \<noteq> []"
        proof -
          from nm show ?thesis
            unfolding nameI_def dI name_def by (cases "drop index1 pre") (auto split: if_splits)
        qed
        show ?thesis
        proof (cases "index1 + length name < ?n")
          case False
          with nmle have full: "index1 + length name = ?n" by simp
          then have "index2 = ?n" by (simp add: index2_def skipToBrace_stop)
          with run body [OF in'] nm have "out = ds" by simp
          moreover have "length ?I \<le> index2I"
          proof -
            have "name = drop index1 pre"
              using full i1 by (metis name_def add_diff_cancel_left' length_drop takeWhile_eq_all_conv
                  length_takeWhile_le le_antisym takeWhile_eq_take take_all)
            then have "\<forall>x \<in> set (drop index1 pre). is_ident x"
              unfolding name_def by (metis takeWhile_eq_all_conv)
            then have "nameI = drop index1 pre @ takeWhile is_ident r"
              unfolding nameI_def dI by (simp add: takeWhile_append2)
            with full i1 have "?n \<le> index1 + length nameI" by simp
            from brace [OF this] show ?thesis unfolding index2I_def by (rule skipToBrace_none)
          qed
          ultimately show ?thesis using bodyI nmI by simp
        next
          case short: True
          have same: "nameI = name"
          proof -
            have l: "length (takeWhile is_ident (drop index1 pre)) < length (drop index1 pre)"
              using short by (simp add: name_def)
            from nth_length_takeWhile [OF l]
            have "\<not> is_ident (drop index1 pre ! length name)" by (simp add: name_def)
            moreover have "drop index1 pre ! length name \<in> set (drop index1 pre)"
              using l unfolding name_def by (rule nth_mem)
            ultimately show ?thesis
              unfolding nameI_def dI name_def by (intro takeWhile_append1) auto
          qed
          show ?thesis
          proof (cases "?n \<le> index2")
            case True
            with run body [OF in'] nm have "out = ds" by simp
            moreover have "length ?I \<le> index2I"
              unfolding index2I_def same
              using True nb unfolding index2_def by (rule skipToBrace_append_none)
            ultimately show ?thesis using bodyI nmI by simp
          next
            case b: False
            then have b': "index2 < ?n" by simp
            have i2I: "index2I = index2"
              unfolding index2I_def same using b' unfolding index2_def
              by (rule skipToBrace_append_less)
            obtain res index3 where fb: "findBlockEnd pre index2 0 = (res, index3)"
              by (cases "findBlockEnd pre index2 0")
            with run body [OF in'] nm b obtain e where re: "res = Some e"
              by (cases res) auto
            from fb re have fb': "findBlockEnd pre index2 0 = (Some e, index3)" by simp
            have at: "pre ! index2 = CHR ''{''"
              using b' unfolding index2_def by (rule skipToBrace_at)
            from findBlockEnd_closesBlock [OF fb' b' at] have e: "e < ?n"
              by (simp add: closesBlock_def)
            from findBlockEnd_gt [OF fb'] have i3: "index2 \<le> e" "index3 = e + 1" by simp_all
            have le1: "index \<le> index1"
              using skipWhitespace_ge [of "index + length (keyword t)" pre] by (simp add: index1_def)
            have le2: "index1 \<le> index2"
              using skipToBrace_ge [of "index1 + length name" pre] by (simp add: index2_def)
            define d where "d = \<lparr>filename = computeFilename t name,
                                  content = substring pre index (e + 1), type = t\<rparr>"
            from run body [OF in'] nm b fb' have rec: "parseLoop pre index3 (ds @ [d]) = Inr out"
              by (simp add: d_def)
            from e i3 le1 le2 ge have "length pre - index3 < length pre - i" "index3 \<le> ?n"
              by simp_all
            from less.hyps [OF this rec] have recI: "parseLoop ?I index3 (ds @ [d]) = Inr out" .
            have sub: "substring ?I index (Suc e) = substring pre index (Suc e)"
              using e by (simp add: substring_def)
            from findBlockEnd_append [OF fb', of r] recI nmI b'
            show ?thesis
              unfolding bodyI i2I same by (simp add: sub d_def)
          qed
        qed
      qed
    qed
  qed
qed

text \<open>
  C10. When the input ends with a truncated definition (a definition keyword, white space,
  a name, and no opening brace from there to the end of the input) after a text that the
  splitter accepts, the splitter raises no error and returns the definitions of the text
  before it: the truncated definition is not in the list, and the definitions scanned
  before it are all returned.
\<close>

theorem splitter_truncated_definition:
  assumes "parseGraphQLDefinitions pre = Inr definitions"
    and "list_all is_space ws"
    and "name \<noteq> []" and "list_all is_ident name"
    and "CHR ''{'' \<notin> set tail"
  shows "parseGraphQLDefinitions (pre @ keyword t @ ws @ name @ tail) = Inr definitions"
proof -
  have "CHR ''{'' \<notin> set (keyword t)" by (cases t) (simp_all add: keyword_simps)
  moreover have "CHR ''{'' \<notin> set ws"
    using assms(2) is_space_not_brace by (auto simp: list_all_iff)
  moreover have "CHR ''{'' \<notin> set name"
    using assms(4) is_ident_not_brace by (auto simp: list_all_iff)
  ultimately have nb: "CHR ''{'' \<notin> set (keyword t @ ws @ name @ tail)"
    using assms(5) by simp
  from assms(1) have "parseLoop pre 0 [] = Inr definitions"
    by (simp add: parseGraphQLDefinitions_def)
  from parseLoop_append_truncated [OF refl assms(2,3,4) nb _ this]
  show ?thesis by (simp add: parseGraphQLDefinitions_def)
qed

theorem splitter_truncated_definition_witness:
  "parseGraphQLDefinitions ''query A{f} fragment B_x on T'' =
     Inr [\<lparr>filename = ''A.js'', content = ''query A{f}'', type = Query\<rparr>] \<and>
   parseGraphQLDefinitions ''query A{f} '' =
     Inr [\<lparr>filename = ''A.js'', content = ''query A{f}'', type = Query\<rparr>]"
proof -
  have 1: "parseGraphQLDefinitions ''query A{f} '' =
     Inr [\<lparr>filename = ''A.js'', content = ''query A{f}'', type = Query\<rparr>]" by code_simp
  have 2: "list_all is_space '' ''" by code_simp
  have 3: "''B_x'' \<noteq> []" by simp
  have 4: "list_all is_ident ''B_x''" by code_simp
  have 5: "CHR ''{'' \<notin> set '' on T''" by simp
  from splitter_truncated_definition [OF 1 2 3 4 5, of Fragment] 1
  show ?thesis by (simp add: keyword_simps)
qed

section \<open>Properties of the Definition Grouper\<close>

subsection \<open>Grouping\<close>

lemma pushDefinition_keys: "fst ` set (pushDefinition acc d) = insert (filename d) (fst ` set acc)"
  by (induction acc d rule: pushDefinition.induct) auto

lemma pushDefinition_distinct:
  "distinct (map fst acc) \<Longrightarrow> distinct (map fst (pushDefinition acc d))"
proof (induction acc d rule: pushDefinition.induct)
  case (1 d)
  then show ?case by simp
next
  case (2 k defs acc d)
  then show ?case by (auto simp: pushDefinition_keys)
qed

lemma pushDefinition_map_of:
  "map_of (pushDefinition acc d) k =
     (if k = filename d
      then Some ((case map_of acc k of None \<Rightarrow> [] | Some v \<Rightarrow> v) @ [d])
      else map_of acc k)"
  by (induction acc d rule: pushDefinition.induct) auto

lemma groupDefinitions_total:
  "\<forall>d \<in> set ds. filename d \<notin> set objectPrototypeKeys \<Longrightarrow> \<exists>g. groupDefinitions acc ds = Inr g"
  by (induction ds arbitrary: acc) auto

lemma groupDefinitions_groups:
  "groupDefinitions acc ds = Inr g \<Longrightarrow> distinct (map fst acc) \<Longrightarrow>
   distinct (map fst g) \<and> fst ` set g = fst ` set acc \<union> filename ` set ds \<and>
   (\<forall>k \<in> fst ` set g. map_of g k =
      Some ((case map_of acc k of None \<Rightarrow> [] | Some v \<Rightarrow> v) @ filter (\<lambda>d. filename d = k) ds))"
proof (induction ds arbitrary: acc)
  case Nil
  then show ?case by (auto simp: map_of_eq_None_iff [symmetric] split: option.splits)
next
  case (Cons d ds)
  from Cons.prems(1) have run: "groupDefinitions (pushDefinition acc d) ds = Inr g"
    by (simp split: if_splits)
  from Cons.prems(2) have dist: "distinct (map fst (pushDefinition acc d))"
    by (rule pushDefinition_distinct)
  from Cons.IH [OF run dist] have ih:
    "distinct (map fst g)"
    "fst ` set g = fst ` set (pushDefinition acc d) \<union> filename ` set ds"
    "\<forall>k \<in> fst ` set g. map_of g k =
      Some ((case map_of (pushDefinition acc d) k of None \<Rightarrow> [] | Some v \<Rightarrow> v)
              @ filter (\<lambda>d. filename d = k) ds)"
    by blast+
  have keys: "fst ` set g = fst ` set acc \<union> filename ` set (d # ds)"
    using ih(2) by (auto simp: pushDefinition_keys)
  have "map_of g k =
      Some ((case map_of acc k of None \<Rightarrow> [] | Some v \<Rightarrow> v)
              @ filter (\<lambda>d. filename d = k) (d # ds))" if "k \<in> fst ` set g" for k
  proof -
    from ih(3) that have "map_of g k =
      Some ((case map_of (pushDefinition acc d) k of None \<Rightarrow> [] | Some v \<Rightarrow> v)
              @ filter (\<lambda>d. filename d = k) ds)" by blast
    then show ?thesis by (auto simp: pushDefinition_map_of)
  qed
  with ih(1) keys show ?case by blast
qed

subsection \<open>Sorting\<close>

lemma set_insertSorted: "set (insertSorted cmp x ys) = insert x (set ys)"
  by (induction ys) auto

lemma mset_insertSorted: "mset (insertSorted cmp x ys) = add_mset x (mset ys)"
  by (induction ys) auto

lemma mset_jsSort: "mset (jsSort cmp xs) = mset xs"
  by (induction xs) (auto simp: jsSort_def mset_insertSorted)

lemma sorted_insertSorted:
  assumes "consistentComparator cmp" "sorted_wrt (\<lambda>a b. cmp a b \<le> 0) ys"
  shows "sorted_wrt (\<lambda>a b. cmp a b \<le> 0) (insertSorted cmp x ys)"
  using assms(2)
proof (induction ys)
  case Nil
  then show ?case by simp
next
  case (Cons y ys)
  from assms(1) have trans: "\<And>a b c. cmp a b \<le> 0 \<Longrightarrow> cmp b c \<le> 0 \<Longrightarrow> cmp a c \<le> 0"
    and anti: "\<And>a b. cmp a b < 0 \<longleftrightarrow> 0 < cmp b a"
    unfolding consistentComparator_def by blast+
  show ?case
  proof (cases "cmp x y \<le> 0")
    case True
    with Cons.prems trans show ?thesis by auto
  next
    case False
    then have "0 < cmp x y" by simp
    with anti have "cmp y x \<le> 0" by (simp add: less_imp_le)
    with False Cons show ?thesis by (auto simp: set_insertSorted)
  qed
qed

lemma sorted_jsSort:
  "consistentComparator cmp \<Longrightarrow> sorted_wrt (\<lambda>a b. cmp a b \<le> 0) (jsSort cmp xs)"
  by (induction xs) (auto simp: jsSort_def sorted_insertSorted)

text \<open>The sort is stable: the elements that compare equal to \<open>z\<close> keep their order.\<close>

lemma consistent_equal:
  assumes "consistentComparator cmp" "cmp z x = 0" "cmp z y = 0"
  shows "cmp x y \<le> 0"
proof -
  from assms(1) have anti: "\<And>a b. cmp a b < 0 \<longleftrightarrow> 0 < cmp b a"
    and trans: "\<And>a b c. cmp a b \<le> 0 \<Longrightarrow> cmp b c \<le> 0 \<Longrightarrow> cmp a c \<le> 0"
    unfolding consistentComparator_def by blast+
  from anti [of x z] anti [of z x] assms(2) have "cmp x z \<le> 0" by linarith
  from trans [OF this] assms(3) show ?thesis by simp
qed

lemma filter_insertSorted:
  assumes "consistentComparator cmp"
  shows "filter (\<lambda>y. cmp z y = 0) (insertSorted cmp x ys) = filter (\<lambda>y. cmp z y = 0) (x # ys)"
proof (induction ys)
  case Nil
  show ?case by simp
next
  case (Cons y ys)
  show ?case
  proof (cases "cmp x y \<le> 0")
    case True
    then show ?thesis by simp
  next
    case False
    then have "\<not> (cmp z x = 0 \<and> cmp z y = 0)"
      using consistent_equal [OF assms, of z x y] by blast
    with False Cons.IH show ?thesis by auto
  qed
qed

lemma filter_jsSort:
  assumes "consistentComparator cmp"
  shows "filter (\<lambda>y. cmp z y = 0) (jsSort cmp xs) = filter (\<lambda>y. cmp z y = 0) xs"
proof (induction xs)
  case Nil
  show ?case by (simp add: jsSort_def)
next
  case (Cons x xs)
  have "jsSort cmp (x # xs) = insertSorted cmp x (jsSort cmp xs)" by (simp add: jsSort_def)
  with Cons filter_insertSorted [OF assms, of z x "jsSort cmp xs"] show ?case by simp
qed

lemma mset_objectEntries: "mset (objectEntries obj) = mset obj"
  by (simp add: objectEntries_def)

lemma consistent_compareDefinitions:
  assumes "consistentComparator lc"
  shows "consistentComparator (compareDefinitions lc)"
proof -
  from assms have trans: "\<And>a b c. lc a b \<le> 0 \<Longrightarrow> lc b c \<le> 0 \<Longrightarrow> lc a c \<le> 0"
    and anti: "\<And>a b. lc a b < 0 \<longleftrightarrow> 0 < lc b a"
    unfolding consistentComparator_def by blast+
  have "compareDefinitions lc a b < 0 \<longleftrightarrow> 0 < compareDefinitions lc b a" for a b
    using anti [of "content a" "content b"]
    by (cases "type a"; cases "type b") (auto simp: compareDefinitions_def)
  moreover have "compareDefinitions lc a c \<le> 0"
    if "compareDefinitions lc a b \<le> 0" "compareDefinitions lc b c \<le> 0" for a b c
    using that trans [of "content a" "content b" "content c"]
    by (cases "type a"; cases "type b"; cases "type c") (auto simp: compareDefinitions_def)
  ultimately show ?thesis unfolding consistentComparator_def by blast
qed

lemma consistent_on_fst:
  "consistentComparator lc \<Longrightarrow> consistentComparator (\<lambda>a b. lc (fst a) (fst b))"
  unfolding consistentComparator_def by blast


subsection \<open>The two comparison functions are consistent\<close>

lemma lexCompare_zero: "lexCompare xs ys = 0 \<longleftrightarrow> xs = ys"
  by (induction xs ys rule: lexCompare.induct) auto

lemma lexCompare_anti: "lexCompare xs ys < 0 \<longleftrightarrow> 0 < lexCompare ys xs"
  by (induction xs ys rule: lexCompare.induct) auto

lemma lexCompare_Cons_neg:
  "lexCompare (x # xs) (y # ys) < 0 \<longleftrightarrow> x < y \<or> (x = y \<and> lexCompare xs ys < 0)"
  by auto

lemma lexCompare_trans:
  "lexCompare xs ys < 0 \<Longrightarrow> lexCompare ys zs < 0 \<Longrightarrow> lexCompare xs zs < 0"
proof (induction xs arbitrary: ys zs)
  case Nil
  then show ?case by (cases ys; cases zs) simp_all
next
  case (Cons x xs)
  from Cons.prems(1) obtain y ys' where ys: "ys = y # ys'" by (cases ys) auto
  from Cons.prems(2) ys obtain z zs' where zs: "zs = z # zs'" by (cases zs) auto
  from Cons.prems(1) ys have 1: "x < y \<or> (x = y \<and> lexCompare xs ys' < 0)"
    by (simp only: lexCompare_Cons_neg)
  from Cons.prems(2) ys zs have 2: "y < z \<or> (y = z \<and> lexCompare ys' zs' < 0)"
    by (simp only: lexCompare_Cons_neg)
  from 1 2 Cons.IH [of ys' zs'] have "x < z \<or> (x = z \<and> lexCompare xs zs' < 0)"
    by (elim disjE conjE) simp_all
  then show ?case unfolding zs by (simp only: lexCompare_Cons_neg)
qed

lemma lexCompare_trans_le:
  "lexCompare xs ys \<le> 0 \<Longrightarrow> lexCompare ys zs \<le> 0 \<Longrightarrow> lexCompare xs zs \<le> 0"
proof -
  assume a: "lexCompare xs ys \<le> 0" "lexCompare ys zs \<le> 0"
  show ?thesis
  proof (cases "lexCompare xs ys = 0 \<or> lexCompare ys zs = 0")
    case True
    with a show ?thesis by (auto simp: lexCompare_zero)
  next
    case False
    with a have "lexCompare xs ys < 0" "lexCompare ys zs < 0" by simp_all
    then have "lexCompare xs zs < 0" by (rule lexCompare_trans)
    then show ?thesis by simp
  qed
qed

lemma consistent_ordinalCompare: "consistentComparator ordinalCompare"
  unfolding consistentComparator_def ordinalCompare_def
proof (intro conjI allI impI)
  fix a b :: string
  show "lexCompare (map of_char a) (map of_char b) < 0 \<longleftrightarrow>
        0 < lexCompare (map of_char b) (map of_char a)"
    by (rule lexCompare_anti)
next
  fix a b c :: string
  assume "lexCompare (map of_char a) (map of_char b) \<le> 0 \<and>
          lexCompare (map of_char b) (map of_char c) \<le> 0"
  then show "lexCompare (map of_char a) (map of_char c) \<le> 0"
    using lexCompare_trans_le by blast
qed

lemma consistent_alphabeticCompare: "consistentComparator alphabeticCompare"
proof -
  have anti: "alphabeticCompare a b < 0 \<longleftrightarrow> 0 < alphabeticCompare b a" for a b
  proof (cases "map primaryWeight a = map primaryWeight b")
    case True
    then have "alphabeticCompare a b = lexCompare (map caseWeight a) (map caseWeight b)"
      "alphabeticCompare b a = lexCompare (map caseWeight b) (map caseWeight a)"
      by (simp_all add: alphabeticCompare_def Let_def lexCompare_zero)
    then show ?thesis by (simp add: lexCompare_anti)
  next
    case False
    then have "lexCompare (map primaryWeight a) (map primaryWeight b) \<noteq> 0"
      "lexCompare (map primaryWeight b) (map primaryWeight a) \<noteq> 0"
      by (auto simp: lexCompare_zero)
    then have "alphabeticCompare a b = lexCompare (map primaryWeight a) (map primaryWeight b)"
      "alphabeticCompare b a = lexCompare (map primaryWeight b) (map primaryWeight a)"
      by (simp_all add: alphabeticCompare_def Let_def)
    then show ?thesis by (simp add: lexCompare_anti)
  qed
  have trans: "alphabeticCompare a c \<le> 0"
    if ab: "alphabeticCompare a b \<le> 0" and bc: "alphabeticCompare b c \<le> 0" for a b c
  proof -
    let ?p = "\<lambda>x. map primaryWeight x" and ?t = "\<lambda>x. map caseWeight x"
    from ab have pab: "lexCompare (?p a) (?p b) \<le> 0"
      by (auto simp: alphabeticCompare_def Let_def split: if_splits)
    from bc have pbc: "lexCompare (?p b) (?p c) \<le> 0"
      by (auto simp: alphabeticCompare_def Let_def split: if_splits)
    show ?thesis
    proof (cases "lexCompare (?p a) (?p b) = 0")
      case ab0: True
      then have eq1: "?p a = ?p b" by (simp add: lexCompare_zero)
      show ?thesis
      proof (cases "lexCompare (?p b) (?p c) = 0")
        case True
        then have eq2: "?p b = ?p c" by (simp add: lexCompare_zero)
        from ab ab0 have "lexCompare (?t a) (?t b) \<le> 0"
          by (simp add: alphabeticCompare_def Let_def)
        moreover from bc True have "lexCompare (?t b) (?t c) \<le> 0"
          by (simp add: alphabeticCompare_def Let_def)
        ultimately have "lexCompare (?t a) (?t c) \<le> 0" by (rule lexCompare_trans_le)
        moreover have "lexCompare (?p a) (?p c) = 0" using eq1 eq2 by (simp add: lexCompare_zero)
        ultimately show ?thesis by (simp add: alphabeticCompare_def Let_def)
      next
        case False
        with pbc eq1 have "lexCompare (?p a) (?p c) < 0" by simp
        then show ?thesis by (simp add: alphabeticCompare_def Let_def)
      qed
    next
      case False
      with pab have lt: "lexCompare (?p a) (?p b) < 0" by simp
      have "lexCompare (?p a) (?p c) < 0"
      proof (cases "lexCompare (?p b) (?p c) = 0")
        case True
        then have "?p b = ?p c" by (simp add: lexCompare_zero)
        with lt show ?thesis by simp
      next
        case False
        with pbc have "lexCompare (?p b) (?p c) < 0" by simp
        with lt show ?thesis by (rule lexCompare_trans)
      qed
      then show ?thesis by (simp add: alphabeticCompare_def Let_def)
    qed
  qed
  from anti trans show ?thesis unfolding consistentComparator_def by blast
qed

subsection \<open>The order of the merged output\<close>

lemma sortedGroups_props:
  assumes lc: "consistentComparator lc"
    and g: "distinct (map fst g)"
      "\<forall>k \<in> fst ` set g. map_of g k = Some (filter (\<lambda>d. filename d = k) definitions)"
  shows "sorted_wrt (\<lambda>a b. lc (fst a) (fst b) \<le> 0) (sortedGroups lc g)"
    and "distinct (map fst (sortedGroups lc g))"
    and "fst ` set (sortedGroups lc g) = fst ` set g"
    and "\<forall>grp \<in> set (sortedGroups lc g).
           mset (snd grp) = mset (filter (\<lambda>d. filename d = fst grp) definitions) \<and>
           sorted_wrt (\<lambda>a b. compareDefinitions lc a b \<le> 0) (snd grp) \<and>
           (\<forall>z. filter (\<lambda>d. compareDefinitions lc z d = 0) (snd grp) =
                filter (\<lambda>d. compareDefinitions lc z d = 0)
                  (filter (\<lambda>d. filename d = fst grp) definitions))"
proof -
  let ?E = "jsSort (\<lambda>a b. lc (fst a) (fst b)) (objectEntries g)"
  have sg: "sortedGroups lc g = map (\<lambda>(file, defs). (file, jsSort (compareDefinitions lc) defs)) ?E"
    by (simp add: sortedGroups_def)
  have fsts: "map fst (sortedGroups lc g) = map fst ?E"
    unfolding sg by (simp add: case_prod_beta comp_def)
  have msE: "mset ?E = mset g" by (simp add: mset_jsSort mset_objectEntries)
  then have setE: "set ?E = set g" by (rule mset_eq_setD)
  have "sorted_wrt (\<lambda>a b. lc (fst a) (fst b) \<le> 0) ?E"
    by (rule sorted_jsSort [OF consistent_on_fst [OF lc]])
  then show "sorted_wrt (\<lambda>a b. lc (fst a) (fst b) \<le> 0) (sortedGroups lc g)"
    unfolding sg by (simp add: sorted_wrt_map case_prod_beta)
  have "mset (map fst ?E) = mset (map fst g)" using msE by simp
  from mset_eq_imp_distinct_iff [OF this] g(1)
  show "distinct (map fst (sortedGroups lc g))"
    unfolding fsts by simp
  have "set (map fst (sortedGroups lc g)) = set (map fst ?E)" by (simp only: fsts)
  then show "fst ` set (sortedGroups lc g) = fst ` set g"
    by (simp only: set_map setE)
  show "\<forall>grp \<in> set (sortedGroups lc g).
           mset (snd grp) = mset (filter (\<lambda>d. filename d = fst grp) definitions) \<and>
           sorted_wrt (\<lambda>a b. compareDefinitions lc a b \<le> 0) (snd grp) \<and>
           (\<forall>z. filter (\<lambda>d. compareDefinitions lc z d = 0) (snd grp) =
                filter (\<lambda>d. compareDefinitions lc z d = 0)
                  (filter (\<lambda>d. filename d = fst grp) definitions))"
  proof
    fix grp assume "grp \<in> set (sortedGroups lc g)"
    then have "grp \<in> (\<lambda>(file, defs). (file, jsSort (compareDefinitions lc) defs)) ` set ?E"
      unfolding sg by simp
    then obtain e where ein: "e \<in> set ?E"
      and ge: "grp = (\<lambda>(file, defs). (file, jsSort (compareDefinitions lc) defs)) e"
      by (rule imageE)
    obtain fname defs where ee: "e = (fname, defs)" by (cases e)
    from ein setE ee have e: "(fname, defs) \<in> set g" by simp
    from ge ee have grp: "grp = (fname, jsSort (compareDefinitions lc) defs)" by simp
    from e g(1) have "map_of g fname = Some defs" by simp
    moreover from e have "fname \<in> fst ` set g" by force
    ultimately have "defs = filter (\<lambda>d. filename d = fname) definitions" using g(2) by auto
    then show "mset (snd grp) = mset (filter (\<lambda>d. filename d = fst grp) definitions) \<and>
           sorted_wrt (\<lambda>a b. compareDefinitions lc a b \<le> 0) (snd grp) \<and>
           (\<forall>z. filter (\<lambda>d. compareDefinitions lc z d = 0) (snd grp) =
                filter (\<lambda>d. compareDefinitions lc z d = 0)
                  (filter (\<lambda>d. filename d = fst grp) definitions))"
      unfolding grp
      by (simp add: mset_jsSort sorted_jsSort [OF consistent_compareDefinitions [OF lc]]
          filter_jsSort [OF consistent_compareDefinitions [OF lc]] del: filter_filter)
  qed
qed


lemma sorted_compareDefinitions:
  assumes "sorted_wrt (\<lambda>a b. compareDefinitions lc a b \<le> 0) ds"
  shows "sorted_wrt (\<lambda>a b. \<not> (type a = Fragment \<and> type b = Query)) ds"
    and "sorted_wrt (\<lambda>a b. type a = type b \<longrightarrow> lc (content a) (content b) \<le> 0) ds"
proof -
  show "sorted_wrt (\<lambda>a b. \<not> (type a = Fragment \<and> type b = Query)) ds"
    by (rule sorted_wrt_mono_rel [OF _ assms]) (auto simp: compareDefinitions_def)
  show "sorted_wrt (\<lambda>a b. type a = type b \<longrightarrow> lc (content a) (content b) \<le> 0) ds"
    by (rule sorted_wrt_mono_rel [OF _ assms]) (auto simp: compareDefinitions_def)
qed

lemma mergeDefinitions_two:
  assumes "lc f1 f2 < 0" "0 < lc f2 f1" "f1 \<noteq> f2"
    "f1 \<notin> set objectPrototypeKeys" "f2 \<notin> set objectPrototypeKeys"
    "\<not> isArrayIndex f1" "\<not> isArrayIndex f2"
    "filename d1 = f1" "filename d2 = f2"
  shows "mergeDefinitions lc [d2, d1] = Inr [mergedFile (f1, [d1]), mergedFile (f2, [d2])]"
    and "mergeDefinitions lc [d1, d2] = Inr [mergedFile (f1, [d1]), mergedFile (f2, [d2])]"
  using assms
  by (auto simp: mergeDefinitions_def sortedGroups_def objectEntries_def jsSort_def)


text \<open>
  C7 (as amended). For a consistent comparison function \<open>lc\<close> (the runtime's
  \<open>localeCompare\<close>) and definitions whose filenames are not property names inherited
  from \<open>Object.prototype\<close>, \<open>mergeDefinitions\<close> returns one merged file per filename, the
  files ordered by \<open>lc\<close> on the filename; the entries of a file are the definitions with
  that filename, all queries before all fragments, and entries of the same type ordered
  by \<open>lc\<close> on their content; the entries of a file that compare equal (the same type, and
  contents that \<open>lc\<close> does not tell apart) keep their order in the input. When \<open>lc\<close> puts
  \<open>A.js\<close> before \<open>B.js\<close>, the queries \<open>BQuery\<close> and \<open>AQuery\<close> yield the file \<open>A.js\<close> before
  \<open>B.js\<close> in either input order.
\<close>

theorem grouper_ordering:
  assumes lc: "consistentComparator lc"
    and ok: "\<forall>d \<in> set definitions. filename d \<notin> set objectPrototypeKeys"
    and ab: "lc ''A.js'' ''B.js'' < 0"
  shows "(\<exists>grps. mergeDefinitions lc definitions = Inr (map mergedFile grps) \<and>
            sorted_wrt (\<lambda>g h. lc (fst g) (fst h) \<le> 0) grps \<and>
            distinct (map fst grps) \<and> fst ` set grps = filename ` set definitions \<and>
            (\<forall>g \<in> set grps.
               mset (snd g) = mset (filter (\<lambda>d. filename d = fst g) definitions) \<and>
               sorted_wrt (\<lambda>a b. \<not> (type a = Fragment \<and> type b = Query)) (snd g) \<and>
               sorted_wrt (\<lambda>a b. type a = type b \<longrightarrow> lc (content a) (content b) \<le> 0)
                 (snd g) \<and>
               (\<forall>z :: Definition. filter (\<lambda>d. type d = type z \<and> lc (content z) (content d) = 0) (snd g) =
                    filter (\<lambda>d. filename d = fst g \<and> type d = type z \<and>
                                lc (content z) (content d) = 0) definitions))) \<and>
         mergeDefinitions lc
           [\<lparr>filename = ''B.js'', content = cB, type = Query\<rparr>,
            \<lparr>filename = ''A.js'', content = cA, type = Query\<rparr>] =
           Inr [\<lparr>filename = ''A.js'', content = ''graphql`'' @ cA @ ''`''\<rparr>,
                \<lparr>filename = ''B.js'', content = ''graphql`'' @ cB @ ''`''\<rparr>] \<and>
         mergeDefinitions lc
           [\<lparr>filename = ''A.js'', content = cA, type = Query\<rparr>,
            \<lparr>filename = ''B.js'', content = cB, type = Query\<rparr>] =
           Inr [\<lparr>filename = ''A.js'', content = ''graphql`'' @ cA @ ''`''\<rparr>,
                \<lparr>filename = ''B.js'', content = ''graphql`'' @ cB @ ''`''\<rparr>]"
proof (intro conjI)
  from groupDefinitions_total [OF ok] obtain g where g: "groupDefinitions [] definitions = Inr g"
    by blast
  have raw: "distinct (map fst g) \<and>
      fst ` set g = fst ` set ([] :: groups) \<union> filename ` set definitions \<and>
      (\<forall>k \<in> fst ` set g. map_of g k =
         Some ((case map_of ([] :: groups) k of None \<Rightarrow> [] | Some v \<Rightarrow> v)
                 @ filter (\<lambda>d. filename d = k) definitions))"
    by (rule groupDefinitions_groups [OF g]) simp
  from raw have dist: "distinct (map fst g)" by blast
  from raw have keys: "fst ` set g = filename ` set definitions" by simp
  have grp: "\<forall>k \<in> fst ` set g. map_of g k = Some (filter (\<lambda>d. filename d = k) definitions)"
  proof
    fix k assume "k \<in> fst ` set g"
    with raw have "map_of g k =
         Some ((case map_of ([] :: groups) k of None \<Rightarrow> [] | Some v \<Rightarrow> v)
                 @ filter (\<lambda>d. filename d = k) definitions)" by blast
    then show "map_of g k = Some (filter (\<lambda>d. filename d = k) definitions)" by simp
  qed
  note props = sortedGroups_props [OF lc dist grp]
  show "\<exists>grps. mergeDefinitions lc definitions = Inr (map mergedFile grps) \<and>
            sorted_wrt (\<lambda>g h. lc (fst g) (fst h) \<le> 0) grps \<and>
            distinct (map fst grps) \<and> fst ` set grps = filename ` set definitions \<and>
            (\<forall>g \<in> set grps.
               mset (snd g) = mset (filter (\<lambda>d. filename d = fst g) definitions) \<and>
               sorted_wrt (\<lambda>a b. \<not> (type a = Fragment \<and> type b = Query)) (snd g) \<and>
               sorted_wrt (\<lambda>a b. type a = type b \<longrightarrow> lc (content a) (content b) \<le> 0)
                 (snd g) \<and>
               (\<forall>z :: Definition. filter (\<lambda>d. type d = type z \<and> lc (content z) (content d) = 0) (snd g) =
                    filter (\<lambda>d. filename d = fst g \<and> type d = type z \<and>
                                lc (content z) (content d) = 0) definitions))"
  proof (intro exI [of _ "sortedGroups lc g"] conjI ballI)
    show "mergeDefinitions lc definitions = Inr (map mergedFile (sortedGroups lc g))"
      by (simp add: mergeDefinitions_def g)
    show "sorted_wrt (\<lambda>g h. lc (fst g) (fst h) \<le> 0) (sortedGroups lc g)" by (rule props(1))
    show "distinct (map fst (sortedGroups lc g))" by (rule props(2))
    show "fst ` set (sortedGroups lc g) = filename ` set definitions"
      using props(3) keys by simp
  next
    fix x assume x: "x \<in> set (sortedGroups lc g)"
    with props(4) have m: "mset (snd x) = mset (filter (\<lambda>d. filename d = fst x) definitions)"
      and s: "sorted_wrt (\<lambda>a b. compareDefinitions lc a b \<le> 0) (snd x)"
      and st: "\<And>z. filter (\<lambda>d. compareDefinitions lc z d = 0) (snd x) =
                filter (\<lambda>d. compareDefinitions lc z d = 0)
                  (filter (\<lambda>d. filename d = fst x) definitions)" by blast+
    show "mset (snd x) = mset (filter (\<lambda>d. filename d = fst x) definitions)" by (rule m)
    show "sorted_wrt (\<lambda>a b. \<not> (type a = Fragment \<and> type b = Query)) (snd x)"
      by (rule sorted_compareDefinitions(1) [OF s])
    show "sorted_wrt (\<lambda>a b. type a = type b \<longrightarrow> lc (content a) (content b) \<le> 0) (snd x)"
      by (rule sorted_compareDefinitions(2) [OF s])
    show "\<forall>z :: Definition. filter (\<lambda>d. type d = type z \<and> lc (content z) (content d) = 0) (snd x) =
            filter (\<lambda>d. filename d = fst x \<and> type d = type z \<and>
                        lc (content z) (content d) = 0) definitions"
    proof
      fix z
      have e: "\<And>d. compareDefinitions lc z d = 0 \<longleftrightarrow>
                   type d = type z \<and> lc (content z) (content d) = 0"
        by (auto simp: compareDefinitions_def)
      from st [of z] show "filter (\<lambda>d. type d = type z \<and> lc (content z) (content d) = 0) (snd x) =
            filter (\<lambda>d. filename d = fst x \<and> type d = type z \<and>
                        lc (content z) (content d) = 0) definitions"
        unfolding e by (simp add: conj_commute conj_left_commute)
    qed
  qed
next
  from lc ab have ba: "0 < lc ''B.js'' ''A.js''" unfolding consistentComparator_def by blast
  have ne: "''A.js'' \<noteq> ''B.js''" by simp
  have k1: "''A.js'' \<notin> set objectPrototypeKeys" and k2: "''B.js'' \<notin> set objectPrototypeKeys"
    by code_simp+
  have i1: "\<not> isArrayIndex ''A.js''" and i2: "\<not> isArrayIndex ''B.js''" by code_simp+
  let ?qA = "\<lparr>filename = ''A.js'', content = cA, type = Query\<rparr>"
  let ?qB = "\<lparr>filename = ''B.js'', content = cB, type = Query\<rparr>"
  have fa: "filename ?qA = ''A.js''" and fb: "filename ?qB = ''B.js''" by simp_all
  have mf: "mergedFile (''A.js'', [?qA]) = \<lparr>filename = ''A.js'', content = ''graphql`'' @ cA @ ''`''\<rparr>"
    "mergedFile (''B.js'', [?qB]) = \<lparr>filename = ''B.js'', content = ''graphql`'' @ cB @ ''`''\<rparr>"
    by (simp_all add: mergedFile_def join_def wrapContent_def)
  from mergeDefinitions_two(1) [OF ab ba ne k1 k2 i1 i2 fa fb] mf
  show "mergeDefinitions lc [?qB, ?qA] =
           Inr [\<lparr>filename = ''A.js'', content = ''graphql`'' @ cA @ ''`''\<rparr>,
                \<lparr>filename = ''B.js'', content = ''graphql`'' @ cB @ ''`''\<rparr>]" by simp
  from mergeDefinitions_two(2) [OF ab ba ne k1 k2 i1 i2 fa fb] mf
  show "mergeDefinitions lc [?qA, ?qB] =
           Inr [\<lparr>filename = ''A.js'', content = ''graphql`'' @ cA @ ''`''\<rparr>,
                \<lparr>filename = ''B.js'', content = ''graphql`'' @ cB @ ''`''\<rparr>]" by simp
qed

theorem grouper_ordering_witness:
  "mergeDefinitions alphabeticCompare
     [\<lparr>filename = ''B.js'', content = ''query BQuery {b}'', type = Query\<rparr>,
      \<lparr>filename = ''a.js'', content = ''fragment a_x on T {c}'', type = Fragment\<rparr>,
      \<lparr>filename = ''a.js'', content = ''query aQuery {d}'', type = Query\<rparr>,
      \<lparr>filename = ''a.js'', content = ''query AQuery {e}'', type = Query\<rparr>] =
     Inr [\<lparr>filename = ''a.js'',
            content = ''graphql`query aQuery {d}`'' @ [CHR 0x0A] @ ''graphql`query AQuery {e}`''
              @ [CHR 0x0A] @ ''graphql`fragment a_x on T {c}`''\<rparr>,
          \<lparr>filename = ''B.js'', content = ''graphql`query BQuery {b}`''\<rparr>] \<and>
   (\<exists>grps. mergeDefinitions alphabeticCompare
        [\<lparr>filename = ''B.js'', content = ''query BQuery {b}'', type = Query\<rparr>,
         \<lparr>filename = ''a.js'', content = ''fragment a_x on T {c}'', type = Fragment\<rparr>,
         \<lparr>filename = ''a.js'', content = ''query aQuery {d}'', type = Query\<rparr>,
         \<lparr>filename = ''a.js'', content = ''query AQuery {e}'', type = Query\<rparr>] =
        Inr (map mergedFile grps) \<and>
      sorted_wrt (\<lambda>g h. alphabeticCompare (fst g) (fst h) \<le> 0) grps \<and>
      distinct (map fst grps)) \<and>
   mergeDefinitions alphabeticCompare
     [\<lparr>filename = ''B.js'', content = ''query BQuery {b}'', type = Query\<rparr>,
      \<lparr>filename = ''A.js'', content = ''query AQuery {a}'', type = Query\<rparr>] =
     Inr [\<lparr>filename = ''A.js'', content = ''graphql`'' @ ''query AQuery {a}'' @ ''`''\<rparr>,
          \<lparr>filename = ''B.js'', content = ''graphql`'' @ ''query BQuery {b}'' @ ''`''\<rparr>]"
proof -
  let ?D = "[\<lparr>filename = ''B.js'', content = ''query BQuery {b}'', type = Query\<rparr>,
      \<lparr>filename = ''a.js'', content = ''fragment a_x on T {c}'', type = Fragment\<rparr>,
      \<lparr>filename = ''a.js'', content = ''query aQuery {d}'', type = Query\<rparr>,
      \<lparr>filename = ''a.js'', content = ''query AQuery {e}'', type = Query\<rparr>]"
  have ok: "\<forall>d \<in> set ?D. filename d \<notin> set objectPrototypeKeys" by code_simp
  have ab: "alphabeticCompare ''A.js'' ''B.js'' < 0" by code_simp
  have val: "mergeDefinitions alphabeticCompare ?D =
     Inr [\<lparr>filename = ''a.js'',
            content = ''graphql`query aQuery {d}`'' @ [CHR 0x0A] @ ''graphql`query AQuery {e}`''
              @ [CHR 0x0A] @ ''graphql`fragment a_x on T {c}`''\<rparr>,
          \<lparr>filename = ''B.js'', content = ''graphql`query BQuery {b}`''\<rparr>]"
    by code_simp
  from grouper_ordering [OF consistent_alphabeticCompare ok ab,
      of "''query BQuery {b}''" "''query AQuery {a}''"] val
  show ?thesis by blast
qed

text \<open>
  C7 as stated fails: the order is not the ordinal one. With the comparison of the runtime the file \<open>a.js\<close> comes before \<open>B.js\<close>; in the ordinal
  order \<open>B.js\<close> is first.
\<close>

theorem grouper_ordinal_counterexample:
  "mergeDefinitions alphabeticCompare
     [\<lparr>filename = ''B.js'', content = ''query BQuery {b}'', type = Query\<rparr>,
      \<lparr>filename = ''a.js'', content = ''query aQuery {a}'', type = Query\<rparr>] =
     Inr [\<lparr>filename = ''a.js'', content = ''graphql`query aQuery {a}`''\<rparr>,
          \<lparr>filename = ''B.js'', content = ''graphql`query BQuery {b}`''\<rparr>] \<and>
   \<not> sorted_wrt (\<lambda>g h. ordinalCompare (filename g) (filename h) \<le> 0)
     [\<lparr>filename = ''a.js'', content = ''graphql`query aQuery {a}`''\<rparr>,
      \<lparr>filename = ''B.js'', content = ''graphql`query BQuery {b}`''\<rparr>]"
  by code_simp

section \<open>Properties of the Argument Canonicalizer and the Selection Merger\<close>

subsection \<open>Sorting a list of arguments\<close>

lemma sorted_unique:
  assumes "sorted_wrt le xs" "sorted_wrt le ys" "mset xs = mset ys"
    and "\<forall>a \<in> set xs. \<forall>b \<in> set xs. le a b \<and> le b a \<longrightarrow> a = b"
  shows "xs = ys"
  using assms
proof (induction xs arbitrary: ys)
  case Nil
  then show ?case by simp
next
  case (Cons x xs)
  from Cons.prems(3) obtain y ys' where ys: "ys = y # ys'" by (cases ys) auto
  have sets: "set (x # xs) = set (y # ys')"
    using Cons.prems(3) ys by (metis mset_eq_setD)
  have xy: "x = y"
  proof (rule ccontr)
    assume ne: "x \<noteq> y"
    with sets have "x \<in> set ys'" "y \<in> set xs" by auto
    with Cons.prems(1,2) ys have "le y x" "le x y" by auto
    with Cons.prems(4) sets have "x = y" by auto
    with ne show False by simp
  qed
  from Cons.prems(1) have "sorted_wrt le xs" by simp
  moreover from Cons.prems(2) ys have "sorted_wrt le ys'" by simp
  moreover from xy Cons.prems(3) ys have "mset xs = mset ys'" by simp
  moreover from Cons.prems(4) have "\<forall>a \<in> set xs. \<forall>b \<in> set xs. le a b \<and> le b a \<longrightarrow> a = b"
    by simp
  ultimately have "xs = ys'" by (rule Cons.IH)
  with xy ys show ?case by simp
qed

lemma jsSort_permutation:
  assumes lc: "consistentComparator lc"
    and dist: "distinct (map fst xs)"
    and perm: "mset ys = mset xs"
    and sep: "\<forall>a \<in> fst ` set xs. \<forall>b \<in> fst ` set xs. lc a b = 0 \<longrightarrow> a = b"
  shows "jsSort (\<lambda>a b. lc (fst a) (fst b)) ys = jsSort (\<lambda>a b. lc (fst a) (fst b)) xs"
proof (rule sorted_unique [where le = "\<lambda>a b. lc (fst a) (fst b) \<le> 0"])
  let ?cmp = "\<lambda>a b. lc (fst a) (fst b)"
  have c: "consistentComparator ?cmp" by (rule consistent_on_fst [OF lc])
  show "sorted_wrt (\<lambda>a b. ?cmp a b \<le> 0) (jsSort ?cmp ys)" by (rule sorted_jsSort [OF c])
  show "sorted_wrt (\<lambda>a b. ?cmp a b \<le> 0) (jsSort ?cmp xs)" by (rule sorted_jsSort [OF c])
  show "mset (jsSort ?cmp ys) = mset (jsSort ?cmp xs)" by (simp add: mset_jsSort perm)
  have set_ys: "set (jsSort ?cmp ys) = set xs"
    using mset_eq_setD [of "jsSort ?cmp ys" xs] by (simp add: mset_jsSort perm)
  show "\<forall>a \<in> set (jsSort ?cmp ys). \<forall>b \<in> set (jsSort ?cmp ys).
          ?cmp a b \<le> 0 \<and> ?cmp b a \<le> 0 \<longrightarrow> a = b"
  proof (intro ballI impI)
    fix a b assume a: "a \<in> set (jsSort ?cmp ys)" and b: "b \<in> set (jsSort ?cmp ys)"
      and le: "?cmp a b \<le> 0 \<and> ?cmp b a \<le> 0"
    from a b set_ys have ab: "a \<in> set xs" "b \<in> set xs" by simp_all
    from lc have anti: "lc (fst a) (fst b) < 0 \<longleftrightarrow> 0 < lc (fst b) (fst a)"
      unfolding consistentComparator_def by blast
    with le have "lc (fst a) (fst b) = 0" by linarith
    with sep ab have "fst a = fst b" by auto
    with dist ab show "a = b"
      by (metis eq_key_imp_eq_value prod.collapse)
  qed
qed

lemma createArgumentKey_permutation:
  assumes lc: "consistentComparator lc"
    and dist: "distinct (map argumentName args)"
    and perm: "mset args' = mset args"
    and sep: "\<forall>a \<in> argumentName ` set args. \<forall>b \<in> argumentName ` set args. lc a b = 0 \<longrightarrow> a = b"
  shows "createArgumentKey lc args' = createArgumentKey lc args"
proof -
  let ?f = "\<lambda>arg :: ArgumentNode. (argumentName arg, normalizeValueNode (argumentValue arg))"
  have d: "distinct (map fst (map ?f args))" using dist by (simp add: comp_def)
  have p: "mset (map ?f args') = mset (map ?f args)" using perm by simp
  have s: "\<forall>a \<in> fst ` set (map ?f args). \<forall>b \<in> fst ` set (map ?f args). lc a b = 0 \<longrightarrow> a = b"
    using sep by (simp add: image_image)
  have "jsSort (\<lambda>a b. lc (fst a) (fst b)) (map ?f args')
          = jsSort (\<lambda>a b. lc (fst a) (fst b)) (map ?f args)"
    by (rule jsSort_permutation [OF lc d p s])
  moreover have "args' = [] \<longleftrightarrow> args = []" using perm by (metis mset_zero_iff)
  ultimately show ?thesis by (simp add: createArgumentKey_def Let_def)
qed

subsection \<open>The merge as a fold\<close>

text \<open>
  What the loop stores under the key of a selection: the selection itself when the key is
  new, else the node found merged with it.
\<close>

fun mergeNode ::
  "(string \<Rightarrow> string \<Rightarrow> int) \<Rightarrow> SelectionNode option \<Rightarrow> SelectionNode \<Rightarrow> SelectionNode" where
  "mergeNode lc None s = s"
| "mergeNode lc (Some existing) (Field als nm args sset) =
     (case (selectionSetOf existing, sset) of
        (None, None) \<Rightarrow> existing
      | (Some es, None) \<Rightarrow> withSelectionSet existing es
      | (None, Some ss) \<Rightarrow> withSelectionSet existing ss
      | (Some es, Some ss) \<Rightarrow> withSelectionSet existing (mergeSelectionSets lc es ss))"
| "mergeNode lc (Some existing) (InlineFragment tc sels) =
     withSelectionSet existing (mergeSelectionSets lc (selectionsOf existing) sels)"
| "mergeNode lc (Some existing) (FragmentSpread nm nl ds l) = FragmentSpread nm nl ds l"

lemma mapSet_same: "map_of m k = Some v \<Longrightarrow> mapSet k v m = m"
  by (induction m) (auto split: if_splits)

lemma map_of_mapSet: "map_of (mapSet k v m) k' = (if k' = k then Some v else map_of m k')"
  by (induction m) auto

lemma map_fst_mapSet:
  "map fst (mapSet k v m) = (if k \<in> fst ` set m then map fst m else map fst m @ [k])"
  by (induction m) force+

lemma mapSet_distinct: "distinct (map fst m) \<Longrightarrow> distinct (map fst (mapSet k v m))"
  by (simp add: map_fst_mapSet)

lemma mapSet_values:
  "list_all P (map snd m) \<Longrightarrow> P v \<Longrightarrow> list_all P (map snd (mapSet k v m))"
  by (induction m) auto

lemma dedupLoop_Cons:
  "dedupLoop lc m (s # rest) =
     dedupLoop lc (mapSet (selectionKey lc s) (mergeNode lc (map_of m (selectionKey lc s)) s) m) rest"
proof (cases s)
  case (Field als nm args sset)
  show ?thesis
  proof (cases "map_of m (createFieldKey lc als nm args)")
    case None
    with Field show ?thesis by (simp add: dedupLoop.simps)
  next
    case (Some existing)
    with Field show ?thesis
      by (cases "selectionSetOf existing"; cases sset)
        (simp_all add: dedupLoop.simps mapSet_same mergeSelectionSets_def
          deduplicateSelections_def)
  qed
next
  case (InlineFragment tc sels)
  then show ?thesis
    by (cases "map_of m (createInlineFragmentKey tc)")
      (simp_all add: dedupLoop.simps mergeSelectionSets_def deduplicateSelections_def)
next
  case (FragmentSpread nm nl ds l)
  then show ?thesis
    by (cases "map_of m (otherKey nm nl ds l)") (simp_all add: dedupLoop.simps)
qed

lemma dedupLoop_Nil: "dedupLoop lc m [] = m"
  by (simp add: dedupLoop.simps)

lemma selectionKey_withSelectionSet: "selectionKey lc (withSelectionSet s sels) = selectionKey lc s"
  by (cases s) simp_all

lemma selectionKey_mergeNode:
  "(\<forall>e. existing = Some e \<longrightarrow> selectionKey lc e = selectionKey lc s) \<Longrightarrow>
   selectionKey lc (mergeNode lc existing s) = selectionKey lc s"
proof (cases existing)
  case None
  then show ?thesis by simp
next
  case (Some e)
  assume "\<forall>e. existing = Some e \<longrightarrow> selectionKey lc e = selectionKey lc s"
  with Some have k: "selectionKey lc e = selectionKey lc s" by simp
  show ?thesis
  proof (cases s)
    case (Field als nm args sset)
    with Some k show ?thesis
      by (cases "selectionSetOf e"; cases sset) (simp_all add: selectionKey_withSelectionSet)
  next
    case (InlineFragment tc sels)
    with Some k show ?thesis by (simp add: selectionKey_withSelectionSet)
  next
    case (FragmentSpread nm nl ds l)
    with Some show ?thesis by simp
  qed
qed

text \<open>The map of the loop: its keys are distinct and each is the key of its value.\<close>

definition keyedMap :: "(string \<Rightarrow> string \<Rightarrow> int) \<Rightarrow> (string \<times> SelectionNode) list \<Rightarrow> bool" where
  "keyedMap lc m = (distinct (map fst m) \<and> list_all (\<lambda>p. selectionKey lc (snd p) = fst p) m)"

lemma keyedMap_mapSet:
  assumes "keyedMap lc m" "selectionKey lc v = k"
  shows "keyedMap lc (mapSet k v m)"
proof -
  have "list_all (\<lambda>p. selectionKey lc (snd p) = fst p) (mapSet k v m)"
    using assms unfolding keyedMap_def
  proof (induction m)
    case Nil
    then show ?case by simp
  next
    case (Cons p m)
    then show ?case by (cases p) auto
  qed
  with assms(1) show ?thesis unfolding keyedMap_def by (simp add: mapSet_distinct)
qed

lemma keyedMap_lookup: "keyedMap lc m \<Longrightarrow> map_of m k = Some e \<Longrightarrow> selectionKey lc e = k"
  unfolding keyedMap_def by (induction m) (auto split: if_splits)

lemma keyedMap_dedupLoop: "keyedMap lc m \<Longrightarrow> keyedMap lc (dedupLoop lc m sels)"
proof (induction sels arbitrary: m)
  case Nil
  then show ?case by (simp add: dedupLoop_Nil)
next
  case (Cons s sels)
  have "selectionKey lc (mergeNode lc (map_of m (selectionKey lc s)) s) = selectionKey lc s"
    by (rule selectionKey_mergeNode) (auto dest: keyedMap_lookup [OF Cons.prems])
  with Cons.prems have "keyedMap lc
      (mapSet (selectionKey lc s) (mergeNode lc (map_of m (selectionKey lc s)) s) m)"
    by (rule keyedMap_mapSet)
  then show ?case unfolding dedupLoop_Cons by (rule Cons.IH)
qed

lemma keyedMap_filter:
  "keyedMap lc m \<Longrightarrow>
   filter (\<lambda>s. selectionKey lc s = k) (map snd m) = (case map_of m k of None \<Rightarrow> [] | Some v \<Rightarrow> [v])"
  unfolding keyedMap_def
proof (induction m)
  case Nil
  then show ?case by simp
next
  case (Cons p m)
  obtain k' v where p: "p = (k', v)" by (cases p)
  show ?case
  proof (cases "k' = k")
    case True
    with Cons.prems p have "map_of m k = None"
      by (auto simp: map_of_eq_None_iff)
    with Cons True p show ?thesis by simp
  next
    case False
    with Cons p show ?thesis by simp
  qed
qed

subsection \<open>The keys of the three kinds of selection are disjoint\<close>

text \<open>
  A name of the GraphQL lexer consists of letters, digits and underscores. The key of a
  field then starts with such a name, followed by nothing or by the bracket that opens
  the printed arguments; the two other keys start with \<open>inline:\<close> and \<open>other:\<close>. So the
  node the loop finds in the map under the key of a selection has the kind of that
  selection, as the casts of the source assume.
\<close>

definition lexerName :: "string \<Rightarrow> bool" where
  "lexerName s = list_all is_ident s"

fun lexerNames :: "SelectionNode \<Rightarrow> bool" where
  "lexerNames (Field als nm args sset) =
     (lexerName nm \<and> (case als of None \<Rightarrow> True | Some a \<Rightarrow> lexerName a))"
| "lexerNames (InlineFragment tc sels) = True"
| "lexerNames (FragmentSpread nm nl ds l) = True"

fun sameKind :: "SelectionNode \<Rightarrow> SelectionNode \<Rightarrow> bool" where
  "sameKind (Field als nm args sset) t = (case t of Field _ _ _ _ \<Rightarrow> True | _ \<Rightarrow> False)"
| "sameKind (InlineFragment tc sels) t = (case t of InlineFragment _ _ \<Rightarrow> True | _ \<Rightarrow> False)"
| "sameKind (FragmentSpread nm nl ds l) t = (case t of FragmentSpread _ _ _ _ \<Rightarrow> True | _ \<Rightarrow> False)"

definition keyHead :: "string \<Rightarrow> string \<times> string" where
  "keyHead k = (takeWhile is_ident k, take 1 (dropWhile is_ident k))"

lemma createArgumentKey_head:
  "createArgumentKey lc args = [] \<or> (\<exists>r. createArgumentKey lc args = CHR ''['' # r)"
  by (simp add: createArgumentKey_def Let_def)

lemma keyHead_name:
  assumes "lexerName n" and "r = [] \<or> (\<exists>r'. r = CHR ''['' # r')"
  shows "keyHead (n @ r) = (n, take 1 r) \<and> take 1 r \<noteq> '':''"
proof -
  have n: "\<forall>c \<in> set n. is_ident c"
    using assms(1) by (simp add: lexerName_def list_all_iff)
  have b: "\<not> is_ident CHR ''[''" by (simp add: is_ident_def)
  have "takeWhile is_ident (n @ r) = n" "dropWhile is_ident (n @ r) = r"
    using n assms(2) b by (auto simp: takeWhile_append2 dropWhile_append2)
  then show ?thesis using assms(2) by (auto simp: keyHead_def)
qed

lemma keyHead_field:
  assumes "lexerNames (Field als nm args sset)"
  shows "snd (keyHead (selectionKey lc (Field als nm args sset))) \<noteq> '':''"
proof -
  let ?n = "case als of Some a \<Rightarrow> a | None \<Rightarrow> nm"
  have "lexerName ?n" using assms by (cases als) simp_all
  from keyHead_name [OF this createArgumentKey_head [of lc args]]
  show ?thesis by (simp add: createFieldKey_def)
qed

lemma keyHead_inline:
  "keyHead (selectionKey lc (InlineFragment tc sels)) = (''inline'', '':'')"
  by (simp add: keyHead_def createInlineFragmentKey_def is_ident_def)

lemma keyHead_other:
  "keyHead (selectionKey lc (FragmentSpread nm nl ds l)) = (''other'', '':'')"
  by (simp add: keyHead_def otherKey_def is_ident_def)

lemma keyHead_kind:
  assumes "lexerNames s" and "k = selectionKey lc s"
  shows "case s of
           Field als nm args sset \<Rightarrow> snd (keyHead k) \<noteq> '':''
         | InlineFragment tc sels \<Rightarrow> keyHead k = (''inline'', '':'')
         | FragmentSpread nm nl ds l \<Rightarrow> keyHead k = (''other'', '':'')"
proof (cases s)
  case (Field als nm args sset)
  then show ?thesis using assms keyHead_field [of als nm args sset lc] by simp
next
  case (InlineFragment tc sels)
  then show ?thesis using assms(2) keyHead_inline [of lc tc sels] by simp
next
  case (FragmentSpread nm nl ds l)
  then show ?thesis using assms(2) keyHead_other [of lc nm nl ds l] by simp
qed

lemma selectionKey_kind:
  assumes "selectionKey lc s = selectionKey lc t" and "lexerNames s" and "lexerNames t"
  shows "sameKind s t"
proof -
  define k where "k = selectionKey lc s"
  then have "k = selectionKey lc t" using assms(1) by simp
  from keyHead_kind [OF assms(2) k_def] keyHead_kind [OF assms(3) this]
  show ?thesis by (cases s; cases t) auto
qed

lemma keyedMap_existing_kind:
  assumes "keyedMap lc m" and "map_of m (selectionKey lc s) = Some existing"
    and "lexerNames s" and "lexerNames existing"
  shows "sameKind existing s"
proof -
  from assms(2) have "(selectionKey lc s, existing) \<in> set m" by (rule map_of_SomeD)
  with assms(1) have "selectionKey lc existing = selectionKey lc s"
    by (auto simp: keyedMap_def list_all_iff)
  then show ?thesis using assms(3,4) by (intro selectionKey_kind)
qed

text \<open>The entry of a key depends only on the selections with that key.\<close>

lemma dedupLoop_entry:
  "map_of m k = map_of m' k \<Longrightarrow>
   map_of (dedupLoop lc m sels) k =
   map_of (dedupLoop lc m' (filter (\<lambda>s. selectionKey lc s = k) sels)) k"
proof (induction sels arbitrary: m m')
  case Nil
  then show ?case by (simp add: dedupLoop_Nil)
next
  case (Cons s sels)
  let ?step = "\<lambda>m. mapSet (selectionKey lc s) (mergeNode lc (map_of m (selectionKey lc s)) s) m"
  show ?case
  proof (cases "selectionKey lc s = k")
    case True
    with Cons.prems have "map_of (?step m) k = map_of (?step m') k"
      by (simp add: map_of_mapSet)
    from Cons.IH [OF this] True show ?thesis by (simp add: dedupLoop_Cons)
  next
    case False
    with Cons.prems have "map_of (?step m) k = map_of m' k"
      by (simp add: map_of_mapSet)
    from Cons.IH [OF this] False show ?thesis by (simp add: dedupLoop_Cons)
  qed
qed

lemma deduplicate_filter:
  "filter (\<lambda>s. selectionKey lc s = k) (deduplicateSelections lc sels) =
     (case map_of (dedupLoop lc [] (filter (\<lambda>s. selectionKey lc s = k) sels)) k of
        None \<Rightarrow> [] | Some v \<Rightarrow> [v])"
proof -
  have "keyedMap lc []" by (simp add: keyedMap_def)
  then have "keyedMap lc (dedupLoop lc [] sels)" by (rule keyedMap_dedupLoop)
  then have "filter (\<lambda>s. selectionKey lc s = k) (map snd (dedupLoop lc [] sels)) =
      (case map_of (dedupLoop lc [] sels) k of None \<Rightarrow> [] | Some v \<Rightarrow> [v])"
    by (rule keyedMap_filter)
  moreover have "map_of (dedupLoop lc [] sels) k =
      map_of (dedupLoop lc [] (filter (\<lambda>s. selectionKey lc s = k) sels)) k"
    by (rule dedupLoop_entry) simp
  ultimately show ?thesis by (simp add: deduplicateSelections_def)
qed

lemma dedupLoop_two:
  assumes "selectionKey lc s1 = k" "selectionKey lc s2 = k"
  shows "dedupLoop lc [] [s1, s2] = [(k, mergeNode lc (Some s1) s2)]"
  using assms by (simp add: dedupLoop_Cons dedupLoop_Nil)

subsection \<open>Merging a leaf with a field that has a selection set, in the later revision\<close>

text \<open>
  Merge correctness of \<open>deduplicateSelections\<close>: when exactly two selections of a list have
  the merge key \<open>k\<close>, both fields, one a leaf and one with a nested selection set, the
  merged list has exactly one selection with key \<open>k\<close>: the first of the two fields (its
  alias, name and arguments), carrying the nested selection set.
\<close>

lemma deduplicateSelections_merge:
  assumes "filter (\<lambda>s. selectionKey lc s = k) sels =
             [Field als nm args set1, Field als' nm' args' set2]"
    and "(set1 = None \<and> set2 = Some nested) \<or> (set1 = Some nested \<and> set2 = None)"
  shows "filter (\<lambda>s. selectionKey lc s = k) (deduplicateSelections lc sels) =
           [Field als nm args (Some nested)]"
proof -
  let ?f1 = "Field als nm args set1" and ?f2 = "Field als' nm' args' set2"
  have "?f1 \<in> set (filter (\<lambda>s. selectionKey lc s = k) sels)"
    "?f2 \<in> set (filter (\<lambda>s. selectionKey lc s = k) sels)"
    using assms(1) by simp_all
  then have k: "selectionKey lc ?f1 = k" "selectionKey lc ?f2 = k" by simp_all
  have "mergeNode lc (Some ?f1) ?f2 = Field als nm args (Some nested)"
    using assms(2) by auto
  with dedupLoop_two [OF k] have
    "map_of (dedupLoop lc [] [?f1, ?f2]) k = Some (Field als nm args (Some nested))" by simp
  then show ?thesis by (simp add: deduplicate_filter assms(1))
qed

text \<open>
  An instance: \<open>account(a: 1, b: $v)\<close>, a leaf, and \<open>account: acct(b: $v, a: 1) { x }\<close> have
  one key and merge into the first with the selection set of the second.
\<close>

lemma deduplicateSelections_merge_example:
  "deduplicateSelections alphabeticCompare
     [fld ''id'',
      Field None ''account''
        [argumentOf ''a'' (IntValue ''1'' None), argumentOf ''b'' (Variable ''v'' None None)] None,
      InlineFragment (Some ''T'') [fld ''y''],
      Field (Some ''account'') ''acct''
        [argumentOf ''b'' (Variable ''v'' None None), argumentOf ''a'' (IntValue ''1'' None)]
        (Some [fld ''x''])] =
     [fld ''id'',
      Field None ''account''
        [argumentOf ''a'' (IntValue ''1'' None), argumentOf ''b'' (Variable ''v'' None None)]
        (Some [fld ''x'']),
      InlineFragment (Some ''T'') [fld ''y'']]"
  by code_simp

subsection \<open>Scenario 1\<close>

text \<open>
  C2. Scenario 1: for the operation \<open>{ id, account { id }, ...F }\<close> and the fragment \<open>F\<close>
  with the selections \<open>{ id, account { x } }\<close> the inliner returns the operation
  \<open>{ id, account { id, x } }\<close>, whatever the comparison function, and whatever the
  location and the directives of the spread.
\<close>

theorem inline_scenario1:
  "inlineFragmentsInDocument lc
     [OperationDefinition (Some ''Q'')
        [Field None ''id'' [] None,
         Field None ''account'' [] (Some [Field None ''id'' [] None]),
         FragmentSpread ''F'' nameLoc directives loc],
      FragmentDefinition ''F'' ''T''
        [Field None ''id'' [] None,
         Field None ''account'' [] (Some [Field None ''x'' [] None])]] =
   Some (Inr
     [OperationDefinition (Some ''Q'')
        [Field None ''id'' [] None,
         Field None ''account'' []
           (Some [Field None ''id'' [] None, Field None ''x'' [] None])]])"
  by code_simp

subsection \<open>Argument order in the later revision\<close>

text \<open>
  Argument-order invariance of \<open>createArgumentKey\<close>: for a consistent comparison function
  that tells the argument names apart, two argument lists with distinct names that are
  equal up to reordering have the same canonical key; two sibling fields that differ only
  in that order have the same merge key, and \<open>deduplicateSelections\<close> returns one field for
  them, with the arguments of the first.
\<close>

lemma createArgumentKey_order_invariance:
  assumes "consistentComparator lc"
    and "distinct (map argumentName args)"
    and "mset args' = mset args"
    and "\<forall>a \<in> argumentName ` set args. \<forall>b \<in> argumentName ` set args. lc a b = 0 \<longrightarrow> a = b"
  shows "createArgumentKey lc args' = createArgumentKey lc args \<and>
         selectionKey lc (Field als nm args' set2) = selectionKey lc (Field als nm args set1) \<and>
         (\<exists>merged. deduplicateSelections lc [Field als nm args set1, Field als nm args' set2] =
            [Field als nm args merged])"
proof -
  have key: "createArgumentKey lc args' = createArgumentKey lc args"
    by (rule createArgumentKey_permutation [OF assms])
  then have k: "selectionKey lc (Field als nm args' set2) = selectionKey lc (Field als nm args set1)"
    by (simp add: createFieldKey_def)
  have "dedupLoop lc [] [Field als nm args set1, Field als nm args' set2] =
      [(selectionKey lc (Field als nm args set1),
        mergeNode lc (Some (Field als nm args set1)) (Field als nm args' set2))]"
    by (rule dedupLoop_two [OF refl k])
  moreover have "\<exists>merged. mergeNode lc (Some (Field als nm args set1)) (Field als nm args' set2) =
      Field als nm args merged"
    by (cases set1; cases set2) simp_all
  ultimately have "\<exists>merged. deduplicateSelections lc
      [Field als nm args set1, Field als nm args' set2] = [Field als nm args merged]"
    by (auto simp: deduplicateSelections_def)
  with key k show ?thesis by blast
qed

subsection \<open>The merger of the earlier revision\<close>

text \<open>
  C1. Merge correctness fails on \<open>mergeSelections\<close>. The selections are those of the
  document \<open>{ a(x: 1) a a { y } }\<close> as the parser returns them. The second and the third
  field have the same key, one a leaf and one with a selection set; the merged node
  \<open>a { y }\<close> is written at the index of the first field whose alias or name is \<open>a\<close>, which
  is \<open>a(x: 1)\<close>. The result is \<open>a { y }\<close>, \<open>a\<close>: two fields for that key, and \<open>a(x: 1)\<close> is
  lost. \<open>deduplicateSelections\<close> returns \<open>a(x: 1)\<close>, \<open>a { y }\<close>.
\<close>

theorem mergeSelections_overwrites_sibling:
  "mergeSelections
     [Field None ''a''
        [Argument ''x'' (Some (4, 5)) (IntValue ''1'' (Some (7, 8))) (Some (4, 8))] None,
      Field None ''a'' [] None,
      Field None ''a'' [] (Some [Field None ''y'' [] None])] =
     [Field None ''a'' [] (Some [Field None ''y'' [] None]), Field None ''a'' [] None] \<and>
   deduplicateSelections alphabeticCompare
     [Field None ''a''
        [Argument ''x'' (Some (4, 5)) (IntValue ''1'' (Some (7, 8))) (Some (4, 8))] None,
      Field None ''a'' [] None,
      Field None ''a'' [] (Some [Field None ''y'' [] None])] =
     [Field None ''a''
        [Argument ''x'' (Some (4, 5)) (IntValue ''1'' (Some (7, 8))) (Some (4, 8))] None,
      Field None ''a'' [] (Some [Field None ''y'' [] None])]"
  by code_simp

text \<open>
  C3. Argument-order invariance fails on \<open>mergeSelections\<close>. The selections are those of the
  document \<open>{ f(a: 1, b: 2) f(b: 2, a: 1) }\<close> as the parser returns them, and then the same
  selections parsed with \<open>noLocation\<close>. The key of a field holds the printed argument
  nodes in source order, so the two fields have different keys and both are returned.
  \<open>deduplicateSelections\<close> returns one field, with the arguments of the first.
\<close>

theorem mergeSelections_argument_order:
  "mergeSelections
     [Field None ''f''
        [Argument ''a'' (Some (4, 5)) (IntValue ''1'' (Some (7, 8))) (Some (4, 8)),
         Argument ''b'' (Some (10, 11)) (IntValue ''2'' (Some (13, 14))) (Some (10, 14))] None,
      Field None ''f''
        [Argument ''b'' (Some (18, 19)) (IntValue ''2'' (Some (21, 22))) (Some (18, 22)),
         Argument ''a'' (Some (24, 25)) (IntValue ''1'' (Some (27, 28))) (Some (24, 28))] None] =
     [Field None ''f''
        [Argument ''a'' (Some (4, 5)) (IntValue ''1'' (Some (7, 8))) (Some (4, 8)),
         Argument ''b'' (Some (10, 11)) (IntValue ''2'' (Some (13, 14))) (Some (10, 14))] None,
      Field None ''f''
        [Argument ''b'' (Some (18, 19)) (IntValue ''2'' (Some (21, 22))) (Some (18, 22)),
         Argument ''a'' (Some (24, 25)) (IntValue ''1'' (Some (27, 28))) (Some (24, 28))] None] \<and>
   mergeSelections
     [Field None ''f''
        [argumentOf ''a'' (IntValue ''1'' None), argumentOf ''b'' (IntValue ''2'' None)] None,
      Field None ''f''
        [argumentOf ''b'' (IntValue ''2'' None), argumentOf ''a'' (IntValue ''1'' None)] None] =
     [Field None ''f''
        [argumentOf ''a'' (IntValue ''1'' None), argumentOf ''b'' (IntValue ''2'' None)] None,
      Field None ''f''
        [argumentOf ''b'' (IntValue ''2'' None), argumentOf ''a'' (IntValue ''1'' None)] None] \<and>
   deduplicateSelections alphabeticCompare
     [Field None ''f''
        [Argument ''a'' (Some (4, 5)) (IntValue ''1'' (Some (7, 8))) (Some (4, 8)),
         Argument ''b'' (Some (10, 11)) (IntValue ''2'' (Some (13, 14))) (Some (10, 14))] None,
      Field None ''f''
        [Argument ''b'' (Some (18, 19)) (IntValue ''2'' (Some (21, 22))) (Some (18, 22)),
         Argument ''a'' (Some (24, 25)) (IntValue ''1'' (Some (27, 28))) (Some (24, 28))] None] =
     [Field None ''f''
        [Argument ''a'' (Some (4, 5)) (IntValue ''1'' (Some (7, 8))) (Some (4, 8)),
         Argument ''b'' (Some (10, 11)) (IntValue ''2'' (Some (13, 14))) (Some (10, 14))] None]"
  by code_simp

section \<open>Properties of the Fragment Inliner\<close>

subsection \<open>Spreads, references and reachability\<close>

text \<open>
  The names of all fragment spreads of a selection tree, at any depth; the references
  between fragments (\<open>(m, n)\<close> when the fragment found under \<open>n\<close> spreads \<open>m\<close>); and the
  spreads the inliner reaches from a list of selections, through fields, inline fragments
  and the fragments it finds.
\<close>

fun spreadNames :: "SelectionNode \<Rightarrow> string list" where
  "spreadNames (Field als nm args None) = []"
| "spreadNames (Field als nm args (Some nested)) = concat (map spreadNames nested)"
| "spreadNames (InlineFragment tc nested) = concat (map spreadNames nested)"
| "spreadNames (FragmentSpread nm nl ds l) = [nm]"

definition spreadsOf :: "SelectionNode list \<Rightarrow> string list" where
  "spreadsOf sels = concat (map spreadNames sels)"

fun definitionSpreads :: "DefinitionNode \<Rightarrow> string list" where
  "definitionSpreads (OperationDefinition nm sels) = spreadsOf sels"
| "definitionSpreads (FragmentDefinition nm tc sels) = spreadsOf sels"
| "definitionSpreads (TypeSystemDefinition k) = []"

definition documentSpreads :: "DefinitionNode list \<Rightarrow> string list" where
  "documentSpreads ast = concat (map definitionSpreads ast)"

definition fragmentEntries :: "FragmentMap \<Rightarrow> (string \<times> SelectionNode list) list" where
  "fragmentEntries fragmentMap =
     own fragmentMap @ (case proto fragmentMap of Some sels \<Rightarrow> [(''__proto__'', sels)] | None \<Rightarrow> [])"

definition fragmentRefs :: "FragmentMap \<Rightarrow> (string \<times> string) list" where
  "fragmentRefs fragmentMap =
     concat (map (\<lambda>e. map (\<lambda>m. (m, fst e)) (spreadsOf (snd e))) (fragmentEntries fragmentMap))"

inductive reaches :: "FragmentMap \<Rightarrow> SelectionNode list \<Rightarrow> string \<Rightarrow> bool"
  for fragmentMap :: FragmentMap where
  here: "FragmentSpread n nl ds l \<in> set sels \<Longrightarrow> reaches fragmentMap sels n"
| through_field:
    "Field als nm args (Some nested) \<in> set sels \<Longrightarrow> reaches fragmentMap nested n \<Longrightarrow>
     reaches fragmentMap sels n"
| through_inline:
    "InlineFragment tc nested \<in> set sels \<Longrightarrow> reaches fragmentMap nested n \<Longrightarrow>
     reaches fragmentMap sels n"
| through_fragment:
    "FragmentSpread m nl ds l \<in> set sels \<Longrightarrow> lookupFragment fragmentMap m = Found body \<Longrightarrow>
     reaches fragmentMap body n \<Longrightarrow> reaches fragmentMap sels n"

definition isOperation :: "DefinitionNode \<Rightarrow> bool" where
  "isOperation d = (case d of OperationDefinition nm sels \<Rightarrow> True | _ \<Rightarrow> False)"

definition operationReaches :: "FragmentMap \<Rightarrow> DefinitionNode list \<Rightarrow> string \<Rightarrow> bool" where
  "operationReaches fragmentMap ast n =
     (\<exists>nm sels. OperationDefinition nm sels \<in> set ast \<and> reaches fragmentMap sels n)"

subsection \<open>Cycles: the inliner does not return\<close>

lemma inlineSelections_loop:
  assumes loop: "\<And>sels. sels \<in> S \<Longrightarrow>
      \<exists>m nl ds l rest body. sels = FragmentSpread m nl ds l # rest \<and> lookupFragment fm m = Found body \<and> body \<in> S"
    and "sels \<in> S"
  shows "inlineSelections lc fm sels = None"
proof (rule ccontr)
  assume "inlineSelections lc fm sels \<noteq> None"
  then obtain r where r: "inlineSelections lc fm sels = Some r" by auto
  have "\<not> (fm = fm \<and> sels \<in> S)"
  proof (rule inlineSelections.raw_induct
      [where P = "\<lambda>lc' fm' sels' r'. \<not> (fm' = fm \<and> sels' \<in> S)", OF _ r], goal_cases)
    case (1 f lc' fm' sels' r')
    note IH = 1(1) and body = 1(2)
    show ?case
    proof
      assume a: "fm' = fm \<and> sels' \<in> S"
      with loop obtain m nl ds l rest body where s: "sels' = FragmentSpread m nl ds l # rest"
        and l: "lookupFragment fm m = Found body" and b: "body \<in> S" by blast
      from body s l a obtain r1 where "f lc' fm body = Some r1"
        by (auto simp: bind_eq_Some_conv)
      from IH [OF this] b show False by simp
    qed
  qed
  with assms(2) show False by simp
qed

subsection \<open>Reachability, case by case\<close>

lemma reaches_mono: "reaches fm sels n \<Longrightarrow> set sels \<subseteq> set sels' \<Longrightarrow> reaches fm sels' n"
  by (erule reaches.cases) (auto intro: reaches.intros)

lemma reaches_Nil: "\<not> reaches fm [] n"
  by (auto elim: reaches.cases)

lemma reaches_Cons: "reaches fm (s # rest) n \<longleftrightarrow> reaches fm [s] n \<or> reaches fm rest n"
proof
  assume "reaches fm (s # rest) n"
  then show "reaches fm [s] n \<or> reaches fm rest n"
    by (cases rule: reaches.cases) (auto intro: reaches.intros)
next
  assume "reaches fm [s] n \<or> reaches fm rest n"
  then show "reaches fm (s # rest) n" by (auto elim: reaches_mono)
qed

lemma reaches_leaf: "\<not> reaches fm [Field als nm args None] n"
  by (auto elim: reaches.cases)

lemma reaches_field: "reaches fm [Field als nm args (Some nested)] n \<longleftrightarrow> reaches fm nested n"
  by (auto elim: reaches.cases intro: reaches.through_field)

lemma reaches_inline: "reaches fm [InlineFragment tc nested] n \<longleftrightarrow> reaches fm nested n"
  by (auto elim: reaches.cases intro: reaches.through_inline)

lemma reaches_spread:
  "reaches fm [FragmentSpread m nl ds l] n \<longleftrightarrow>
     n = m \<or> (\<exists>body. lookupFragment fm m = Found body \<and> reaches fm body n)"
  by (auto elim: reaches.cases intro: reaches.here reaches.through_fragment)

subsection \<open>The merger adds no spread\<close>

lemma spreadsOf_simps [simp]:
  "spreadsOf [] = []" "spreadsOf (s # sels) = spreadNames s @ spreadsOf sels"
  "spreadsOf (xs @ ys) = spreadsOf xs @ spreadsOf ys"
  by (simp_all add: spreadsOf_def)

lemma spreadNames_selectionSetOf:
  "spreadNames s = [] \<Longrightarrow> selectionSetOf s = Some es \<Longrightarrow> spreadsOf es = []"
  by (cases s) (auto simp: spreadsOf_def)

lemma spreadsOf_selectionsOf: "spreadNames s = [] \<Longrightarrow> spreadsOf (selectionsOf s) = []"
  by (cases s) (auto simp: selectionsOf_def spreadsOf_def split: option.splits)

lemma spreadNames_withSelectionSet:
  "spreadNames s = [] \<Longrightarrow> spreadsOf sels = [] \<Longrightarrow> spreadNames (withSelectionSet s sels) = []"
  by (cases s) (auto simp: spreadsOf_def)

lemma spreadsOf_values_mapSet:
  "spreadsOf (map snd m) = [] \<Longrightarrow> spreadNames v = [] \<Longrightarrow> spreadsOf (map snd (mapSet k v m)) = []"
  by (induction m) auto

lemma spreadsOf_lookup: "spreadsOf (map snd m) = [] \<Longrightarrow> map_of m k = Some e \<Longrightarrow> spreadNames e = []"
  by (induction m) (auto split: if_splits)

lemma dedupLoop_spreadFree:
  "spreadsOf (map snd m) = [] \<Longrightarrow> spreadsOf sels = [] \<Longrightarrow>
   spreadsOf (map snd (dedupLoop lc m sels)) = []"
proof (induction lc m sels rule: dedupLoop.induct)
  case (1 lc selectionMap)
  then show ?case by (simp add: dedupLoop_Nil)
next
  case (2 lc selectionMap als nm args sset rest)
  let ?key = "createFieldKey lc als nm args"
  let ?sel = "Field als nm args sset"
  from "2.prems"(2) have sel: "spreadNames ?sel = []" and rest: "spreadsOf rest = []" by simp_all
  show ?case
  proof (cases "map_of selectionMap ?key")
    case None
    have "spreadsOf (map snd (mapSet ?key ?sel selectionMap)) = []"
      using "2.prems"(1) sel by (rule spreadsOf_values_mapSet)
    from "2.IH"(1) [OF refl None this rest] None show ?thesis
      by (simp add: dedupLoop.simps)
  next
    case (Some existing)
    from "2.prems"(1) Some have ex: "spreadNames existing = []" by (rule spreadsOf_lookup)
    show ?thesis
    proof (cases "selectionSetOf existing")
      case eNone: None
      show ?thesis
      proof (cases sset)
        case None
        from "2.IH"(2) [OF refl Some refl eNone None "2.prems"(1) rest] Some eNone None
        show ?thesis by (simp add: dedupLoop.simps)
      next
        case (Some ss)
        from sel Some have "spreadsOf ss = []" by (simp add: spreadsOf_def)
        with ex have "spreadNames (withSelectionSet existing ss) = []"
          by (rule spreadNames_withSelectionSet)
        with "2.prems"(1)
        have "spreadsOf (map snd (mapSet ?key (withSelectionSet existing ss) selectionMap)) = []"
          by (rule spreadsOf_values_mapSet)
        from "2.IH"(3) [OF refl \<open>map_of selectionMap ?key = Some existing\<close> refl eNone Some
            this rest]
          \<open>map_of selectionMap ?key = Some existing\<close> eNone Some
        show ?thesis by (simp add: dedupLoop.simps)
      qed
    next
      case eSome: (Some es)
      from ex eSome have es: "spreadsOf es = []" by (rule spreadNames_selectionSetOf)
      show ?thesis
      proof (cases sset)
        case None
        from ex es have "spreadNames (withSelectionSet existing es) = []"
          by (rule spreadNames_withSelectionSet)
        with "2.prems"(1)
        have "spreadsOf (map snd (mapSet ?key (withSelectionSet existing es) selectionMap)) = []"
          by (rule spreadsOf_values_mapSet)
        from "2.IH"(4) [OF refl Some refl eSome None this rest] Some eSome None
        show ?thesis by (simp add: dedupLoop.simps)
      next
        case (Some ss)
        from sel Some have ss: "spreadsOf ss = []" by (simp add: spreadsOf_def)
        note found = \<open>map_of selectionMap ?key = Some existing\<close>
        have "spreadsOf (map snd (dedupLoop lc [] (es @ ss))) = []"
          by (rule "2.IH"(5) [OF refl found refl eSome Some]) (simp_all add: es ss)
        with ex have "spreadNames
            (withSelectionSet existing (map snd (dedupLoop lc [] (es @ ss)))) = []"
          by (rule spreadNames_withSelectionSet)
        with "2.prems"(1)
        have "spreadsOf (map snd (mapSet ?key
            (withSelectionSet existing (map snd (dedupLoop lc [] (es @ ss)))) selectionMap)) = []"
          by (rule spreadsOf_values_mapSet)
        from "2.IH"(6) [OF refl found refl eSome Some this rest] found eSome Some
        show ?thesis by (simp add: dedupLoop.simps)
      qed
    qed
  qed
next
  case (3 lc selectionMap tc sels rest)
  let ?key = "createInlineFragmentKey tc"
  let ?sel = "InlineFragment tc sels"
  from "3.prems"(2) have sel: "spreadNames ?sel = []" and rest: "spreadsOf rest = []" by simp_all
  then have sels: "spreadsOf sels = []" by (simp add: spreadsOf_def)
  show ?case
  proof (cases "map_of selectionMap ?key")
    case None
    have "spreadsOf (map snd (mapSet ?key ?sel selectionMap)) = []"
      using "3.prems"(1) sel by (rule spreadsOf_values_mapSet)
    from "3.IH"(1) [OF refl None this rest] None show ?thesis
      by (simp add: dedupLoop.simps)
  next
    case (Some existing)
    from "3.prems"(1) Some have ex: "spreadNames existing = []" by (rule spreadsOf_lookup)
    have "spreadsOf (map snd (dedupLoop lc [] (selectionsOf existing @ sels))) = []"
      by (rule "3.IH"(2) [OF refl Some]) (simp_all add: sels spreadsOf_selectionsOf [OF ex])
    with ex have "spreadNames (withSelectionSet existing
        (map snd (dedupLoop lc [] (selectionsOf existing @ sels)))) = []"
      by (rule spreadNames_withSelectionSet)
    with "3.prems"(1)
    have "spreadsOf (map snd (mapSet ?key (withSelectionSet existing
        (map snd (dedupLoop lc [] (selectionsOf existing @ sels)))) selectionMap)) = []"
      by (rule spreadsOf_values_mapSet)
    from "3.IH"(3) [OF refl Some this rest] Some show ?thesis
      by (simp add: dedupLoop.simps)
  qed
next
  case (4 lc selectionMap nm rest)
  then show ?case by simp
qed

lemma deduplicateSelections_spreadFree:
  "spreadsOf sels = [] \<Longrightarrow> spreadsOf (deduplicateSelections lc sels) = []"
  unfolding deduplicateSelections_def by (rule dedupLoop_spreadFree) simp

subsection \<open>One step of the inliner\<close>

lemma inlineSelections_Nil: "inlineSelections lc fm [] = Some (Inr [])"
  by (subst inlineSelections.simps) simp

lemma inlineSelections_leaf:
  "inlineSelections lc fm rest = Some r' \<Longrightarrow>
   inlineSelections lc fm (Field als nm args None # rest) =
     Some (case r' of Inl e \<Rightarrow> Inl e | Inr others \<Rightarrow> Inr (Field als nm args None # others))"
  by (subst inlineSelections.simps) (simp split: sum.splits)

lemma inlineSelections_field:
  "inlineSelections lc fm nested = Some r \<Longrightarrow> inlineSelections lc fm rest = Some r' \<Longrightarrow>
   inlineSelections lc fm (Field als nm args (Some nested) # rest) =
     Some (case r of
             Inl e \<Rightarrow> Inl e
           | Inr inlined \<Rightarrow>
               (case r' of
                  Inl e \<Rightarrow> Inl e
                | Inr others \<Rightarrow>
                    Inr (Field als nm args (Some (deduplicateSelections lc inlined)) # others)))"
  by (subst inlineSelections.simps) (simp split: sum.splits)

lemma inlineSelections_inline:
  "inlineSelections lc fm nested = Some r \<Longrightarrow> inlineSelections lc fm rest = Some r' \<Longrightarrow>
   inlineSelections lc fm (InlineFragment tc nested # rest) =
     Some (case r of
             Inl e \<Rightarrow> Inl e
           | Inr inlined \<Rightarrow>
               (case r' of
                  Inl e \<Rightarrow> Inl e
                | Inr others \<Rightarrow>
                    Inr (InlineFragment tc (deduplicateSelections lc inlined) # others)))"
  by (subst inlineSelections.simps) (simp split: sum.splits)

lemma inlineSelections_found:
  "lookupFragment fm m = Found body \<Longrightarrow>
   inlineSelections lc fm body = Some r \<Longrightarrow> inlineSelections lc fm rest = Some r' \<Longrightarrow>
   inlineSelections lc fm (FragmentSpread m nl ds l # rest) =
     Some (case r of
             Inl e \<Rightarrow> Inl e
           | Inr inlined \<Rightarrow>
               (case r' of
                  Inl e \<Rightarrow> Inl e
                | Inr others \<Rightarrow> Inr (deduplicateSelections lc inlined @ others)))"
  by (subst inlineSelections.simps) (simp split: sum.splits)

lemma inlineSelections_inherited:
  "lookupFragment fm m = Inherited \<Longrightarrow>
   inlineSelections lc fm (FragmentSpread m nl ds l # rest) = inlineSelections lc fm rest"
  by (subst inlineSelections.simps) simp

lemma inlineSelections_undefined:
  "lookupFragment fm m = Undefined \<Longrightarrow>
   inlineSelections lc fm (FragmentSpread m nl ds l # rest) = Some (Inl (FragmentNotFound m))"
  by (subst inlineSelections.simps) simp

text \<open>
  What a result of the inliner says about the selections it was called on: an error names
  a spread that was reached and is \<open>undefined\<close> in the map; a list of selections means
  that no reached spread is \<open>undefined\<close>, and the list has no spread left.
\<close>

definition inlinePost ::
  "FragmentMap \<Rightarrow> SelectionNode list \<Rightarrow> inlineError + SelectionNode list \<Rightarrow> bool" where
  "inlinePost fm sels r =
     (case r of
        Inl e \<Rightarrow> (case e of FragmentNotFound n \<Rightarrow>
                    reaches fm sels n \<and> lookupFragment fm n = Undefined)
      | Inr out \<Rightarrow>
          (\<forall>n. reaches fm sels n \<longrightarrow> lookupFragment fm n \<noteq> Undefined) \<and> spreadsOf out = [])"

lemma post_Nil: "inlinePost fm [] (Inr [])"
  by (simp add: inlinePost_def reaches_Nil)

lemma post_leaf:
  "inlinePost fm rest r' \<Longrightarrow>
   inlinePost fm (Field als nm args None # rest)
     (case r' of Inl e \<Rightarrow> Inl e | Inr others \<Rightarrow> Inr (Field als nm args None # others))"
  unfolding inlinePost_def
  by (subst (1 2) reaches_Cons) (auto simp: reaches_leaf split: sum.splits inlineError.splits)

lemma post_field:
  "inlinePost fm nested r \<Longrightarrow> inlinePost fm rest r' \<Longrightarrow>
   inlinePost fm (Field als nm args (Some nested) # rest)
     (case r of
        Inl e \<Rightarrow> Inl e
      | Inr inlined \<Rightarrow>
          (case r' of
             Inl e \<Rightarrow> Inl e
           | Inr others \<Rightarrow>
               Inr (Field als nm args (Some (deduplicateSelections lc inlined)) # others)))"
  unfolding inlinePost_def
  by (subst (1 2) reaches_Cons)
    (auto simp: reaches_field deduplicateSelections_spreadFree spreadsOf_def [symmetric]
      split: sum.splits inlineError.splits)

lemma post_inline:
  "inlinePost fm nested r \<Longrightarrow> inlinePost fm rest r' \<Longrightarrow>
   inlinePost fm (InlineFragment tc nested # rest)
     (case r of
        Inl e \<Rightarrow> Inl e
      | Inr inlined \<Rightarrow>
          (case r' of
             Inl e \<Rightarrow> Inl e
           | Inr others \<Rightarrow>
               Inr (InlineFragment tc (deduplicateSelections lc inlined) # others)))"
  unfolding inlinePost_def
  by (subst (1 2) reaches_Cons)
    (auto simp: reaches_inline deduplicateSelections_spreadFree spreadsOf_def [symmetric]
      split: sum.splits inlineError.splits)

lemma post_found:
  "lookupFragment fm m = Found body \<Longrightarrow> inlinePost fm body r \<Longrightarrow> inlinePost fm rest r' \<Longrightarrow>
   inlinePost fm (FragmentSpread m nl ds l # rest)
     (case r of
        Inl e \<Rightarrow> Inl e
      | Inr inlined \<Rightarrow>
          (case r' of
             Inl e \<Rightarrow> Inl e
           | Inr others \<Rightarrow> Inr (deduplicateSelections lc inlined @ others)))"
  unfolding inlinePost_def
  by (subst (1 2) reaches_Cons)
    (auto simp: reaches_spread deduplicateSelections_spreadFree
      split: sum.splits inlineError.splits)

lemma post_inherited:
  "lookupFragment fm m = Inherited \<Longrightarrow> inlinePost fm rest r' \<Longrightarrow>
   inlinePost fm (FragmentSpread m nl ds l # rest) r'"
  unfolding inlinePost_def
  by (subst (1 2) reaches_Cons) (auto simp: reaches_spread split: sum.splits inlineError.splits)

lemma post_undefined:
  "lookupFragment fm m = Undefined \<Longrightarrow>
   inlinePost fm (FragmentSpread m nl ds l # rest) (Inl (FragmentNotFound m))"
  unfolding inlinePost_def
  by (subst reaches_Cons) (simp add: reaches_spread)

subsection \<open>Acyclic references: the inliner returns\<close>

lemma inlineSelections_returns:
  assumes "\<And>m body. m \<in> set (spreadsOf sels) \<Longrightarrow> lookupFragment fm m = Found body \<Longrightarrow>
             \<exists>r. inlineSelections lc fm body = Some r \<and> inlinePost fm body r"
  shows "\<exists>r. inlineSelections lc fm sels = Some r \<and> inlinePost fm sels r"
  using assms
proof (induction sels rule: measure_induct_rule [where f = listSize])
  case (less sels)
  show ?case
  proof (cases sels)
    case Nil
    then show ?thesis by (simp add: inlineSelections_Nil post_Nil)
  next
    case (Cons s rest)
    have "listSize rest < listSize sels" using Cons by (simp add: nodeSize_pos)
    moreover have "set (spreadsOf rest) \<subseteq> set (spreadsOf sels)" using Cons by simp
    ultimately obtain r' where r': "inlineSelections lc fm rest = Some r'"
      and p': "inlinePost fm rest r'"
      using less.IH [of rest] less.prems by blast
    show ?thesis
    proof (cases s)
      case (Field als nm args sset)
      show ?thesis
      proof (cases sset)
        case None
        with Cons Field r' p' show ?thesis
          by (auto simp: inlineSelections_leaf intro: post_leaf)
      next
        case (Some nested)
        have "listSize nested < listSize sels" using Cons Field Some by (simp add: listSize_def)
        moreover have "set (spreadsOf nested) \<subseteq> set (spreadsOf sels)"
          using Cons Field Some by (simp add: spreadsOf_def)
        ultimately obtain r where r: "inlineSelections lc fm nested = Some r"
          and p: "inlinePost fm nested r"
          using less.IH [of nested] less.prems by blast
        from r r' have "inlineSelections lc fm sels =
            Some (case r of
                    Inl e \<Rightarrow> Inl e
                  | Inr inlined \<Rightarrow>
                      (case r' of
                         Inl e \<Rightarrow> Inl e
                       | Inr others \<Rightarrow>
                           Inr (Field als nm args (Some (deduplicateSelections lc inlined))
                                  # others)))"
          unfolding Cons Field Some by (rule inlineSelections_field)
        with post_field [OF p p', of als nm args lc] Cons Field Some show ?thesis by blast
      qed
    next
      case (InlineFragment tc nested)
      have "listSize nested < listSize sels" using Cons InlineFragment by (simp add: listSize_def)
      moreover have "set (spreadsOf nested) \<subseteq> set (spreadsOf sels)"
        using Cons InlineFragment by (simp add: spreadsOf_def)
      ultimately obtain r where r: "inlineSelections lc fm nested = Some r"
        and p: "inlinePost fm nested r"
        using less.IH [of nested] less.prems by blast
      from r r' have "inlineSelections lc fm sels =
          Some (case r of
                  Inl e \<Rightarrow> Inl e
                | Inr inlined \<Rightarrow>
                    (case r' of
                       Inl e \<Rightarrow> Inl e
                     | Inr others \<Rightarrow>
                         Inr (InlineFragment tc (deduplicateSelections lc inlined) # others)))"
        unfolding Cons InlineFragment by (rule inlineSelections_inline)
      with post_inline [OF p p', of tc lc] Cons InlineFragment show ?thesis by blast
    next
      case (FragmentSpread m nl ds l)
      show ?thesis
      proof (cases "lookupFragment fm m")
        case (Found body)
        have "m \<in> set (spreadsOf sels)" using Cons FragmentSpread by simp
        from less.prems [OF this Found] obtain r where r: "inlineSelections lc fm body = Some r"
          and p: "inlinePost fm body r" by blast
        from Found r r' have "inlineSelections lc fm sels =
            Some (case r of
                    Inl e \<Rightarrow> Inl e
                  | Inr inlined \<Rightarrow>
                      (case r' of
                         Inl e \<Rightarrow> Inl e
                       | Inr others \<Rightarrow> Inr (deduplicateSelections lc inlined @ others)))"
          unfolding Cons FragmentSpread by (rule inlineSelections_found)
        with post_found [OF Found p p', where lc = lc] Cons FragmentSpread show ?thesis by blast
      next
        case Inherited
        with Cons FragmentSpread r' p' show ?thesis
          by (auto simp: inlineSelections_inherited intro: post_inherited)
      next
        case Undefined
        with Cons FragmentSpread show ?thesis
          by (auto simp: inlineSelections_undefined intro: post_undefined)
      qed
    qed
  qed
qed

lemma lookupFragment_entries:
  "lookupFragment fm n = Found body \<Longrightarrow> (n, body) \<in> set (fragmentEntries fm)"
  by (auto simp: lookupFragment_def fragmentEntries_def dest: map_of_SomeD
      split: option.splits if_splits)

lemma fragmentRefs_member:
  "lookupFragment fm n = Found body \<Longrightarrow> m \<in> set (spreadsOf body) \<Longrightarrow>
   (m, n) \<in> set (fragmentRefs fm)"
  using lookupFragment_entries [of fm n body] by (force simp: fragmentRefs_def)

lemma fragment_returns:
  assumes "wf (set (fragmentRefs fm))"
  shows "lookupFragment fm n = Found body \<Longrightarrow>
         \<exists>r. inlineSelections lc fm body = Some r \<and> inlinePost fm body r"
  using assms
proof (induction n arbitrary: body rule: wf_induct_rule)
  case (less n)
  show ?case
  proof (rule inlineSelections_returns)
    fix m body'
    assume "m \<in> set (spreadsOf body)" and f: "lookupFragment fm m = Found body'"
    with less.prems have "(m, n) \<in> set (fragmentRefs fm)" by (simp add: fragmentRefs_member)
    from less.IH [OF this f]
    show "\<exists>r. inlineSelections lc fm body' = Some r \<and> inlinePost fm body' r" .
  qed
qed

lemma acyclic_returns:
  assumes "acyclic (set (fragmentRefs fm))"
  shows "\<exists>r. inlineSelections lc fm sels = Some r \<and> inlinePost fm sels r"
proof -
  have "wf (set (fragmentRefs fm))" using assms by (simp add: finite_acyclic_wf)
  show ?thesis
  proof (rule inlineSelections_returns)
    fix m body
    assume "lookupFragment fm m = Found body"
    then show "\<exists>r. inlineSelections lc fm body = Some r \<and> inlinePost fm body r"
      by (rule fragment_returns [OF \<open>wf (set (fragmentRefs fm))\<close>])
  qed
qed

subsection \<open>Documents\<close>

definition fragmentMapOf :: "DefinitionNode list \<Rightarrow> FragmentMap" where
  "fragmentMapOf ast = buildFragmentMap \<lparr>own = [], proto = None\<rparr> ast"

definition documentPost ::
  "FragmentMap \<Rightarrow> DefinitionNode list \<Rightarrow> inlineError + DefinitionNode list \<Rightarrow> bool" where
  "documentPost fm defs r =
     (case r of
        Inl e \<Rightarrow> (case e of FragmentNotFound n \<Rightarrow>
                    operationReaches fm defs n \<and> lookupFragment fm n = Undefined)
      | Inr out \<Rightarrow>
          (\<forall>n. operationReaches fm defs n \<longrightarrow> lookupFragment fm n \<noteq> Undefined) \<and>
          list_all isOperation out \<and> documentSpreads out = [])"

lemma operationReaches_Nil: "\<not> operationReaches fm [] n"
  by (simp add: operationReaches_def)

lemma operationReaches_operation:
  "operationReaches fm (OperationDefinition nm sels # defs) n \<longleftrightarrow>
     reaches fm sels n \<or> operationReaches fm defs n"
  by (auto simp: operationReaches_def)

lemma operationReaches_other:
  "\<not> isOperation d \<Longrightarrow> operationReaches fm (d # defs) n \<longleftrightarrow> operationReaches fm defs n"
  by (auto simp: operationReaches_def isOperation_def)

lemma inlineOperations_operation:
  "inlineSelections lc fm sels = Some r \<Longrightarrow> inlineOperations lc fm defs = Some r' \<Longrightarrow>
   inlineOperations lc fm (OperationDefinition nm sels # defs) =
     Some (case r of
             Inl e \<Rightarrow> Inl e
           | Inr inlined \<Rightarrow>
               (case r' of
                  Inl e \<Rightarrow> Inl e
                | Inr others \<Rightarrow>
                    Inr (OperationDefinition nm (deduplicateSelections lc inlined) # others)))"
  by (simp split: sum.splits)

lemma inlineOperations_other:
  "\<not> isOperation d \<Longrightarrow> inlineOperations lc fm (d # defs) = inlineOperations lc fm defs"
  by (cases d) (simp_all add: isOperation_def)

lemma documentPost_operation:
  "inlinePost fm sels r \<Longrightarrow> documentPost fm defs r' \<Longrightarrow>
   documentPost fm (OperationDefinition nm sels # defs)
     (case r of
        Inl e \<Rightarrow> Inl e
      | Inr inlined \<Rightarrow>
          (case r' of
             Inl e \<Rightarrow> Inl e
           | Inr others \<Rightarrow>
               Inr (OperationDefinition nm (deduplicateSelections lc inlined) # others)))"
  unfolding inlinePost_def documentPost_def
  by (auto simp: operationReaches_operation deduplicateSelections_spreadFree isOperation_def
      documentSpreads_def split: sum.splits inlineError.splits)

lemma documentPost_other:
  "\<not> isOperation d \<Longrightarrow> documentPost fm defs r \<Longrightarrow> documentPost fm (d # defs) r"
  unfolding documentPost_def
  by (auto simp: operationReaches_other split: sum.splits inlineError.splits)

lemma inlineOperations_returns:
  assumes "acyclic (set (fragmentRefs fm))"
  shows "\<exists>r. inlineOperations lc fm defs = Some r \<and> documentPost fm defs r"
proof (induction defs)
  case Nil
  show ?case by (simp add: documentPost_def operationReaches_Nil documentSpreads_def)
next
  case (Cons d defs)
  then obtain r' where r': "inlineOperations lc fm defs = Some r'"
    and p': "documentPost fm defs r'" by blast
  show ?case
  proof (cases d)
    case (OperationDefinition nm sels)
    from acyclic_returns [OF assms] obtain r where r: "inlineSelections lc fm sels = Some r"
      and p: "inlinePost fm sels r" by blast
    from inlineOperations_operation [OF r r'] documentPost_operation [OF p p']
    show ?thesis unfolding OperationDefinition by blast
  next
    case (FragmentDefinition nm tc sels)
    then have "\<not> isOperation d" by (simp add: isOperation_def)
    with r' p' show ?thesis by (simp add: inlineOperations_other documentPost_other)
  next
    case (TypeSystemDefinition k)
    then have "\<not> isOperation d" by (simp add: isOperation_def)
    with r' p' show ?thesis by (simp add: inlineOperations_other documentPost_other)
  qed
qed

text \<open>A fragment found in the map of a document is the body of one of its definitions.\<close>

lemma lookupFragment_own:
  "lookupFragment (fm\<lparr>own := mapSet nm sels (own fm)\<rparr>) n =
     (if n = nm then Found sels else lookupFragment fm n)"
  by (auto simp: lookupFragment_def map_of_mapSet split: option.splits)

lemma lookupFragment_proto:
  "lookupFragment (fm\<lparr>proto := Some sels\<rparr>) n = Found body \<Longrightarrow>
   lookupFragment fm n = Found body \<or> (n = ''__proto__'' \<and> body = sels)"
  by (auto simp: lookupFragment_def split: option.splits if_splits)

lemma buildFragmentMap_found:
  "lookupFragment (buildFragmentMap fm defs) n = Found body \<Longrightarrow>
   lookupFragment fm n = Found body \<or> (\<exists>tc. FragmentDefinition n tc body \<in> set defs)"
proof (induction defs arbitrary: fm)
  case Nil
  then show ?case by simp
next
  case (Cons d defs)
  show ?case
  proof (cases d)
    case (OperationDefinition onm osels)
    with Cons.prems have "lookupFragment (buildFragmentMap fm defs) n = Found body" by simp
    from Cons.IH [OF this] show ?thesis by auto
  next
    case (TypeSystemDefinition k)
    with Cons.prems have "lookupFragment (buildFragmentMap fm defs) n = Found body" by simp
    from Cons.IH [OF this] show ?thesis by auto
  next
    case (FragmentDefinition nm tc sels)
    show ?thesis
    proof (cases "nm = ''__proto__''")
      case True
      with Cons.prems FragmentDefinition
      have "lookupFragment (buildFragmentMap (fm\<lparr>proto := Some sels\<rparr>) defs) n = Found body"
        by simp
      from Cons.IH [OF this]
      have "lookupFragment (fm\<lparr>proto := Some sels\<rparr>) n = Found body \<or>
          (\<exists>tc. FragmentDefinition n tc body \<in> set defs)" .
      with True FragmentDefinition
        lookupFragment_proto [where fm = fm and sels = sels and n = n and body = body]
      show ?thesis by auto
    next
      case False
      with Cons.prems FragmentDefinition
      have "lookupFragment (buildFragmentMap (fm\<lparr>own := mapSet nm sels (own fm)\<rparr>) defs) n
              = Found body"
        by simp
      from Cons.IH [OF this]
      have "lookupFragment (fm\<lparr>own := mapSet nm sels (own fm)\<rparr>) n = Found body \<or>
          (\<exists>tc. FragmentDefinition n tc body \<in> set defs)" .
      with FragmentDefinition show ?thesis
        by (auto simp: lookupFragment_own split: if_splits)
    qed
  qed
qed

lemma fragmentMapOf_found:
  "lookupFragment (fragmentMapOf ast) n = Found body \<Longrightarrow>
   \<exists>tc. FragmentDefinition n tc body \<in> set ast"
  using buildFragmentMap_found [of "\<lparr>own = [], proto = None\<rparr>" ast n body]
  by (auto simp: fragmentMapOf_def lookupFragment_def split: if_splits)

lemma spreadsOf_member: "s \<in> set sels \<Longrightarrow> set (spreadNames s) \<subseteq> set (spreadsOf sels)"
  by (auto simp: spreadsOf_def)

lemma documentSpreads_member:
  "d \<in> set ast \<Longrightarrow> set (definitionSpreads d) \<subseteq> set (documentSpreads ast)"
  by (auto simp: documentSpreads_def)

lemma reaches_documentSpreads:
  "reaches (fragmentMapOf ast) sels n \<Longrightarrow> set (spreadsOf sels) \<subseteq> set (documentSpreads ast) \<Longrightarrow>
   n \<in> set (documentSpreads ast)"
proof (induction rule: reaches.induct)
  case (here n nl ds l sels)
  with spreadsOf_member [OF here.hyps] show ?case by auto
next
  case (through_field als nm args nested sels n)
  from spreadsOf_member [OF through_field.hyps(1)]
  have "set (spreadsOf nested) \<subseteq> set (spreadsOf sels)" by (simp add: spreadsOf_def)
  with through_field show ?case by blast
next
  case (through_inline tc nested sels n)
  from spreadsOf_member [OF through_inline.hyps(1)]
  have "set (spreadsOf nested) \<subseteq> set (spreadsOf sels)" by (simp add: spreadsOf_def)
  with through_inline show ?case by blast
next
  case (through_fragment m nl ds l sels body n)
  from fragmentMapOf_found [OF through_fragment.hyps(2)] obtain tc
    where "FragmentDefinition m tc body \<in> set ast" by blast
  from documentSpreads_member [OF this] have "set (spreadsOf body) \<subseteq> set (documentSpreads ast)"
    by simp
  with through_fragment show ?case by blast
qed

lemma operationReaches_documentSpreads:
  "operationReaches (fragmentMapOf ast) ast n \<Longrightarrow> n \<in> set (documentSpreads ast)"
proof -
  assume "operationReaches (fragmentMapOf ast) ast n"
  then obtain nm sels where d: "OperationDefinition nm sels \<in> set ast"
    and r: "reaches (fragmentMapOf ast) sels n" by (auto simp: operationReaches_def)
  from documentSpreads_member [OF d] have "set (spreadsOf sels) \<subseteq> set (documentSpreads ast)"
    by simp
  with r show ?thesis by (rule reaches_documentSpreads)
qed

lemma acyclic_no_refs: "acyclic ({} :: (string \<times> string) set)"
  by (simp add: acyclic_def)

text \<open>References that go down along a rank are acyclic.\<close>

lemma acyclic_ranked:
  fixes rank :: "string \<Rightarrow> nat"
  assumes "list_all (\<lambda>e. rank (fst e) < rank (snd e)) refs"
  shows "acyclic (set refs)"
proof -
  have "set refs \<subseteq> inv_image less_than rank"
    using assms by (auto simp: list_all_iff)
  moreover have "wf (inv_image less_than rank)" by simp
  ultimately have "wf (set refs)" by (rule wf_subset [rotated])
  then show ?thesis by (rule wf_acyclic)
qed

lemma inlineFragmentsInDocument_returns:
  assumes "acyclic (set (fragmentRefs (fragmentMapOf ast)))"
  shows "\<exists>r. inlineFragmentsInDocument lc ast = Some r \<and> documentPost (fragmentMapOf ast) ast r"
  using inlineOperations_returns [OF assms, of lc ast]
  by (simp add: inlineFragmentsInDocument_def fragmentMapOf_def)

lemma inlineFragmentsInDocument_loop:
  assumes "\<And>sels. sels \<in> S \<Longrightarrow>
      \<exists>m nl ds l rest body. sels = FragmentSpread m nl ds l # rest \<and>
        lookupFragment (fragmentMapOf (OperationDefinition nm sels0 # defs)) m = Found body \<and>
        body \<in> S"
    and "sels0 \<in> S"
  shows "inlineFragmentsInDocument lc (OperationDefinition nm sels0 # defs) = None"
proof -
  have "inlineSelections lc (fragmentMapOf (OperationDefinition nm sels0 # defs)) sels0 = None"
    using assms by (rule inlineSelections_loop)
  then show ?thesis by (simp add: inlineFragmentsInDocument_def fragmentMapOf_def)
qed

text \<open>
  C4 (as amended). For every document whose fragment references are acyclic and whose
  fragment spreads all name a fragment of the map, the inliner returns a document: it has
  operation definitions only, and no fragment spread at any depth.
\<close>

theorem inliner_postcondition:
  assumes "acyclic (set (fragmentRefs (fragmentMapOf ast)))"
    and "\<forall>n \<in> set (documentSpreads ast). \<exists>body. lookupFragment (fragmentMapOf ast) n = Found body"
  shows "\<exists>out. inlineFragmentsInDocument lc ast = Some (Inr out) \<and>
           list_all isOperation out \<and> documentSpreads out = []"
proof -
  from inlineFragmentsInDocument_returns [OF assms(1)] obtain r
    where r: "inlineFragmentsInDocument lc ast = Some r"
      and p: "documentPost (fragmentMapOf ast) ast r" by blast
  show ?thesis
  proof (cases r)
    case (Inl e)
    obtain n where e: "e = FragmentNotFound n" by (cases e)
    with p Inl have reach: "operationReaches (fragmentMapOf ast) ast n"
      and und: "lookupFragment (fragmentMapOf ast) n = Undefined"
      by (simp_all add: documentPost_def)
    from operationReaches_documentSpreads [OF reach] assms(2) und show ?thesis by auto
  next
    case (Inr out)
    with r p show ?thesis by (simp add: documentPost_def)
  qed
qed

theorem inliner_postcondition_witness:
  "inlineFragmentsInDocument alphabeticCompare
     [OperationDefinition (Some ''Q'')
        [fld ''id'', spread ''A'', Field None ''f'' [] (Some [spread ''B''])],
      FragmentDefinition ''A'' ''T'' [fld ''a'', spread ''B''],
      FragmentDefinition ''B'' ''T'' [fld ''b'', fld ''id'']] =
     Some (Inr [OperationDefinition (Some ''Q'')
        [fld ''id'', fld ''a'', fld ''b'', Field None ''f'' [] (Some [fld ''b'', fld ''id''])]]) \<and>
   (\<exists>out. inlineFragmentsInDocument alphabeticCompare
        [OperationDefinition (Some ''Q'')
           [fld ''id'', spread ''A'', Field None ''f'' [] (Some [spread ''B''])],
         FragmentDefinition ''A'' ''T'' [fld ''a'', spread ''B''],
         FragmentDefinition ''B'' ''T'' [fld ''b'', fld ''id'']] = Some (Inr out) \<and>
      list_all isOperation out \<and> documentSpreads out = [])"
proof -
  let ?ast = "[OperationDefinition (Some ''Q'')
        [fld ''id'', spread ''A'', Field None ''f'' [] (Some [spread ''B''])],
      FragmentDefinition ''A'' ''T'' [fld ''a'', spread ''B''],
      FragmentDefinition ''B'' ''T'' [fld ''b'', fld ''id'']]"
  have refs: "fragmentRefs (fragmentMapOf ?ast) = [(''B'', ''A'')]" by code_simp
  have a: "acyclic (set (fragmentRefs (fragmentMapOf ?ast)))"
    unfolding refs by (simp add: acyclic_insert acyclic_no_refs)
  have f: "\<forall>n \<in> set (documentSpreads ?ast). \<exists>body. lookupFragment (fragmentMapOf ?ast) n = Found body"
  proof -
    have "documentSpreads ?ast = [''A'', ''B'', ''B'']" by code_simp
    moreover have "lookupFragment (fragmentMapOf ?ast) ''A'' = Found [fld ''a'', spread ''B'']"
      by code_simp
    moreover have "lookupFragment (fragmentMapOf ?ast) ''B'' = Found [fld ''b'', fld ''id'']"
      by code_simp
    ultimately show ?thesis by simp
  qed
  have v: "inlineFragmentsInDocument alphabeticCompare ?ast =
     Some (Inr [OperationDefinition (Some ''Q'')
        [fld ''id'', fld ''a'', fld ''b'', Field None ''f'' [] (Some [fld ''b'', fld ''id''])]])"
    by code_simp
  from inliner_postcondition [OF a f, of alphabeticCompare] v show ?thesis by blast
qed

text \<open>
  C4 as stated fails: every spread of this document names a fragment of the map, and the
  inliner does not return (the fragment \<open>A\<close> spreads itself).
\<close>

theorem inliner_postcondition_counterexample:
  "list_all (\<lambda>n. lookupFragment
       (fragmentMapOf
          [OperationDefinition (Some ''Q'') [spread ''A''],
           FragmentDefinition ''A'' ''T'' [spread ''A'', fld ''id'']]) n
       = Found [spread ''A'', fld ''id''])
     (documentSpreads
        [OperationDefinition (Some ''Q'') [spread ''A''],
         FragmentDefinition ''A'' ''T'' [spread ''A'', fld ''id'']]) \<and>
   inlineFragmentsInDocument alphabeticCompare
     [OperationDefinition (Some ''Q'') [spread ''A''],
      FragmentDefinition ''A'' ''T'' [spread ''A'', fld ''id'']] = None"
proof
  show "list_all (\<lambda>n. lookupFragment
       (fragmentMapOf
          [OperationDefinition (Some ''Q'') [spread ''A''],
           FragmentDefinition ''A'' ''T'' [spread ''A'', fld ''id'']]) n
       = Found [spread ''A'', fld ''id''])
     (documentSpreads
        [OperationDefinition (Some ''Q'') [spread ''A''],
         FragmentDefinition ''A'' ''T'' [spread ''A'', fld ''id'']])"
    by code_simp
next
  let ?S = "{[spread ''A''], [spread ''A'', fld ''id'']}"
  have l: "lookupFragment
       (fragmentMapOf
          [OperationDefinition (Some ''Q'') [spread ''A''],
           FragmentDefinition ''A'' ''T'' [spread ''A'', fld ''id'']]) ''A''
       = Found [spread ''A'', fld ''id'']"
    by code_simp
  show "inlineFragmentsInDocument alphabeticCompare
     [OperationDefinition (Some ''Q'') [spread ''A''],
      FragmentDefinition ''A'' ''T'' [spread ''A'', fld ''id'']] = None"
  proof (rule inlineFragmentsInDocument_loop [where S = ?S])
    fix sels assume "sels \<in> ?S"
    with l show "\<exists>m nl ds l rest body. sels = FragmentSpread m nl ds l # rest \<and>
        lookupFragment
          (fragmentMapOf
            [OperationDefinition (Some ''Q'') [spread ''A''],
             FragmentDefinition ''A'' ''T'' [spread ''A'', fld ''id'']]) m = Found body \<and>
        body \<in> ?S"
      by (auto simp: spread_def)
  qed simp
qed

text \<open>
  C5 (as amended). For every document whose fragment references are acyclic and in which
  no spread names a property that a plain object inherits, the inliner returns: with the
  error \<open>Fragment "n" not found\<close> for a spread \<open>n\<close> that is reached from an operation
  (possibly through other fragments) and is absent from the map; or with a document, and
  then every spread reached from an operation names a fragment of the map.
\<close>

theorem unresolved_fragment:
  assumes "acyclic (set (fragmentRefs (fragmentMapOf ast)))"
    and "\<forall>n \<in> set (documentSpreads ast). lookupFragment (fragmentMapOf ast) n \<noteq> Inherited"
  shows "\<exists>r. inlineFragmentsInDocument lc ast = Some r \<and>
           (case r of
              Inl e \<Rightarrow> (case e of FragmentNotFound n \<Rightarrow>
                          operationReaches (fragmentMapOf ast) ast n \<and>
                          map_of (own (fragmentMapOf ast)) n = None \<and>
                          lookupFragment (fragmentMapOf ast) n = Undefined)
            | Inr out \<Rightarrow>
                (\<forall>n. operationReaches (fragmentMapOf ast) ast n \<longrightarrow>
                   (\<exists>body. lookupFragment (fragmentMapOf ast) n = Found body)))"
proof -
  from inlineFragmentsInDocument_returns [OF assms(1)] obtain r
    where r: "inlineFragmentsInDocument lc ast = Some r"
      and p: "documentPost (fragmentMapOf ast) ast r" by blast
  have "case r of
          Inl e \<Rightarrow> (case e of FragmentNotFound n \<Rightarrow>
                      operationReaches (fragmentMapOf ast) ast n \<and>
                      map_of (own (fragmentMapOf ast)) n = None \<and>
                      lookupFragment (fragmentMapOf ast) n = Undefined)
        | Inr out \<Rightarrow>
            (\<forall>n. operationReaches (fragmentMapOf ast) ast n \<longrightarrow>
               (\<exists>body. lookupFragment (fragmentMapOf ast) n = Found body))"
  proof (cases r)
    case (Inl e)
    obtain n where e: "e = FragmentNotFound n" by (cases e)
    with p Inl have reach: "operationReaches (fragmentMapOf ast) ast n"
      and und: "lookupFragment (fragmentMapOf ast) n = Undefined"
      by (simp_all add: documentPost_def)
    from und have "map_of (own (fragmentMapOf ast)) n = None"
      by (auto simp: lookupFragment_def split: option.splits)
    with Inl e reach und show ?thesis by simp
  next
    case (Inr out)
    have "\<exists>body. lookupFragment (fragmentMapOf ast) n = Found body"
      if reach: "operationReaches (fragmentMapOf ast) ast n" for n
    proof -
      from p Inr reach have "lookupFragment (fragmentMapOf ast) n \<noteq> Undefined"
        by (simp add: documentPost_def)
      moreover from operationReaches_documentSpreads [OF reach] assms(2)
      have "lookupFragment (fragmentMapOf ast) n \<noteq> Inherited" by blast
      ultimately show ?thesis by (cases "lookupFragment (fragmentMapOf ast) n") simp_all
    qed
    with Inr show ?thesis by simp
  qed
  with r show ?thesis by blast
qed

theorem unresolved_fragment_witness:
  "inlineFragmentsInDocument alphabeticCompare
     [OperationDefinition (Some ''Q'') [fld ''id'', Field None ''f'' [] (Some [spread ''A''])],
      FragmentDefinition ''A'' ''T'' [fld ''a'', spread ''Missing''],
      FragmentDefinition ''B'' ''T'' [spread ''Other'']] =
     Some (Inl (FragmentNotFound ''Missing'')) \<and>
   operationReaches
     (fragmentMapOf
        [OperationDefinition (Some ''Q'')
           [fld ''id'', Field None ''f'' [] (Some [spread ''A''])],
         FragmentDefinition ''A'' ''T'' [fld ''a'', spread ''Missing''],
         FragmentDefinition ''B'' ''T'' [spread ''Other'']])
     [OperationDefinition (Some ''Q'') [fld ''id'', Field None ''f'' [] (Some [spread ''A''])],
      FragmentDefinition ''A'' ''T'' [fld ''a'', spread ''Missing''],
      FragmentDefinition ''B'' ''T'' [spread ''Other'']] ''Missing''"
proof -
  let ?ast = "[OperationDefinition (Some ''Q'')
        [fld ''id'', Field None ''f'' [] (Some [spread ''A''])],
      FragmentDefinition ''A'' ''T'' [fld ''a'', spread ''Missing''],
      FragmentDefinition ''B'' ''T'' [spread ''Other'']]"
  have "list_all (\<lambda>e. (\<lambda>s. if s \<in> {''A'', ''B''} then 1 else 0 :: nat) (fst e)
                 < (\<lambda>s. if s \<in> {''A'', ''B''} then 1 else 0) (snd e))
      (fragmentRefs (fragmentMapOf ?ast))"
    by code_simp
  then have a: "acyclic (set (fragmentRefs (fragmentMapOf ?ast)))"
    by (rule acyclic_ranked)
  have i: "\<forall>n \<in> set (documentSpreads ?ast). lookupFragment (fragmentMapOf ?ast) n \<noteq> Inherited"
    by code_simp
  have v: "inlineFragmentsInDocument alphabeticCompare ?ast =
      Some (Inl (FragmentNotFound ''Missing''))"
    by code_simp
  from unresolved_fragment [OF a i, of alphabeticCompare] v show ?thesis by auto
qed

text \<open>
  C5 as stated fails: the spread \<open>Missing\<close> is reached from the operation and is absent
  from the map, but the inliner does not return (the fragment \<open>A\<close>, spread before it,
  spreads itself), so no error names it.
\<close>

theorem unresolved_fragment_counterexample:
  "operationReaches
     (fragmentMapOf
        [OperationDefinition (Some ''Q'') [spread ''A'', spread ''Missing''],
         FragmentDefinition ''A'' ''T'' [spread ''A'']])
     [OperationDefinition (Some ''Q'') [spread ''A'', spread ''Missing''],
      FragmentDefinition ''A'' ''T'' [spread ''A'']] ''Missing'' \<and>
   lookupFragment
     (fragmentMapOf
        [OperationDefinition (Some ''Q'') [spread ''A'', spread ''Missing''],
         FragmentDefinition ''A'' ''T'' [spread ''A'']]) ''Missing'' = Undefined \<and>
   inlineFragmentsInDocument alphabeticCompare
     [OperationDefinition (Some ''Q'') [spread ''A'', spread ''Missing''],
      FragmentDefinition ''A'' ''T'' [spread ''A'']] = None"
proof (intro conjI)
  let ?ast = "[OperationDefinition (Some ''Q'') [spread ''A'', spread ''Missing''],
      FragmentDefinition ''A'' ''T'' [spread ''A'']]"
  have "reaches (fragmentMapOf ?ast) [spread ''A'', spread ''Missing''] ''Missing''"
    by (rule reaches.here [where nl = None and ds = "[]" and l = None]) (simp add: spread_def)
  then show "operationReaches (fragmentMapOf ?ast) ?ast ''Missing''"
    unfolding operationReaches_def by (intro exI [of _ "Some ''Q''"] exI) auto
  show "lookupFragment (fragmentMapOf ?ast) ''Missing'' = Undefined" by code_simp
  let ?S = "{[spread ''A'', spread ''Missing''], [spread ''A'']}"
  have l: "lookupFragment (fragmentMapOf ?ast) ''A'' = Found [spread ''A'']"
    by code_simp
  show "inlineFragmentsInDocument alphabeticCompare ?ast = None"
  proof (rule inlineFragmentsInDocument_loop [where S = ?S])
    fix sels assume "sels \<in> ?S"
    with l show "\<exists>m nl ds l rest body. sels = FragmentSpread m nl ds l # rest \<and>
        lookupFragment (fragmentMapOf ?ast) m = Found body \<and> body \<in> ?S"
      by (auto simp: spread_def)
  qed simp
qed

text \<open>
  C6 (as amended). For every document whose fragment references are acyclic the inliner
  returns, with a document or with the error of an unresolved fragment.
\<close>

theorem acyclic_terminates:
  assumes "acyclic (set (fragmentRefs (fragmentMapOf ast)))"
  shows "\<exists>r. inlineFragmentsInDocument lc ast = Some r"
  using inlineFragmentsInDocument_returns [OF assms] by blast

theorem acyclic_terminates_witness:
  "(\<exists>r. inlineFragmentsInDocument alphabeticCompare
      [OperationDefinition (Some ''Q'') [spread ''A'', spread ''C''],
       FragmentDefinition ''A'' ''T'' [spread ''B'', fld ''a''],
       FragmentDefinition ''B'' ''T'' [Field None ''b'' [] (Some [spread ''C''])],
       FragmentDefinition ''C'' ''T'' [fld ''c'']] = Some r) \<and>
   inlineFragmentsInDocument alphabeticCompare
      [OperationDefinition (Some ''Q'') [spread ''A'', spread ''C''],
       FragmentDefinition ''A'' ''T'' [spread ''B'', fld ''a''],
       FragmentDefinition ''B'' ''T'' [Field None ''b'' [] (Some [spread ''C''])],
       FragmentDefinition ''C'' ''T'' [fld ''c'']] =
     Some (Inr [OperationDefinition (Some ''Q'')
                  [Field None ''b'' [] (Some [fld ''c'']), fld ''a'', fld ''c'']])"
proof -
  let ?ast = "[OperationDefinition (Some ''Q'') [spread ''A'', spread ''C''],
       FragmentDefinition ''A'' ''T'' [spread ''B'', fld ''a''],
       FragmentDefinition ''B'' ''T'' [Field None ''b'' [] (Some [spread ''C''])],
       FragmentDefinition ''C'' ''T'' [fld ''c'']]"
  have "list_all (\<lambda>e. (\<lambda>s. if s = ''A'' then 2 else if s = ''B'' then 1 else 0 :: nat) (fst e)
                 < (\<lambda>s. if s = ''A'' then 2 else if s = ''B'' then 1 else 0) (snd e))
      (fragmentRefs (fragmentMapOf ?ast))"
    by code_simp
  then have a: "acyclic (set (fragmentRefs (fragmentMapOf ?ast)))"
    by (rule acyclic_ranked)
  have v: "inlineFragmentsInDocument alphabeticCompare ?ast =
     Some (Inr [OperationDefinition (Some ''Q'')
                  [Field None ''b'' [] (Some [fld ''c'']), fld ''a'', fld ''c'']])"
    by code_simp
  from acyclic_terminates [OF a, of alphabeticCompare] v show ?thesis by blast
qed

text \<open>
  C6 as stated fails: there is no visited set and no CyclicFragment error. When \<open>A\<close>
  spreads \<open>B\<close> and \<open>B\<close> spreads \<open>A\<close> the inliner recurses without bound: the call does
  not return.
\<close>

theorem cyclic_fragment_counterexample:
  "inlineFragmentsInDocument alphabeticCompare
     [OperationDefinition (Some ''Q'') [spread ''A''],
      FragmentDefinition ''A'' ''T'' [spread ''B''],
      FragmentDefinition ''B'' ''T'' [spread ''A'']] = None"
proof -
  let ?ast = "[OperationDefinition (Some ''Q'') [spread ''A''],
      FragmentDefinition ''A'' ''T'' [spread ''B''],
      FragmentDefinition ''B'' ''T'' [spread ''A'']]"
  let ?S = "{[spread ''A''], [spread ''B'']}"
  have l: "lookupFragment (fragmentMapOf ?ast) ''A'' = Found [spread ''B'']"
    "lookupFragment (fragmentMapOf ?ast) ''B'' = Found [spread ''A'']"
    by code_simp+
  show ?thesis
  proof (rule inlineFragmentsInDocument_loop [where S = ?S])
    fix sels assume "sels \<in> ?S"
    with l show "\<exists>m nl ds l rest body. sels = FragmentSpread m nl ds l # rest \<and>
        lookupFragment (fragmentMapOf ?ast) m = Found body \<and> body \<in> ?S"
      by (auto simp: spread_def)
  qed simp
qed

subsection \<open>Documents without spreads\<close>









end
